theory Spec2Isabelle
  imports
    Main
    "HOL-Library.List_Lexorder"
    "HOL-Library.Sublist"
    "HOL-Library.Multiset"
begin

section \<open>Data model\<close>

text \<open>
  A Python \<open>str\<close> is a sequence of Unicode code points: \<open>len\<close>, slicing, \<open>in\<close> and
  the comparison used by \<open>list.sort\<close> all work on code points. It is modelled as a list of
  natural numbers; with the lexicographic order on lists this is Python's string order
  (a proper prefix is smaller). A literal of the source is written \<open>lit ''...''\<close>.
\<close>

type_synonym pystr = "nat list"

definition lit :: "string \<Rightarrow> pystr" where
  "lit s = map of_char s"

text \<open>
  The objects of \<open>data/entities.json\<close> and \<open>data/events.json\<close>. The key \<open>"id"\<close> of an
  event is the field \<open>event_id\<close>.
\<close>

record entity =
  name :: pystr
  summary :: pystr
  tags :: "pystr list"

record event =
  event_id :: pystr
  timestamp :: pystr
  description :: pystr
  category :: pystr

record store =
  entities :: "entity list"
  events :: "event list"

section \<open>Sorting as \<open>list.sort\<close> does\<close>

text \<open>
  \<open>xs.sort(key=f)\<close> is a stable ascending sort, which \<^const>\<open>sort_key\<close> is as well.
  \<open>xs.sort(key=f, reverse=True)\<close> keeps records with equal keys in their original order:
  the list is reversed, sorted stably and reversed again.
\<close>

definition sort_key_reverse :: "('a \<Rightarrow> 'k::linorder) \<Rightarrow> 'a list \<Rightarrow> 'a list" where
  "sort_key_reverse f xs = rev (sort_key f (rev xs))"

section \<open>The merge of \<open>enhance_extraction.py\<close>\<close>

text \<open>
  \<^verbatim>\<open>
  for entity in new_entities:
      if entity["name"] not in existing_names:
          entities.append(entity)
          existing_names.add(entity["name"])
  \<close>
  The loop over the candidates, on the pair of the list being extended and the set of keys
  seen so far. The loop over \<open>new_events\<close> is the same loop with the key \<open>"id"\<close>.
\<close>

fun add_unique :: "('a \<Rightarrow> 'k) \<Rightarrow> 'a list \<times> 'k set \<Rightarrow> 'a list \<Rightarrow> 'a list \<times> 'k set" where
  "add_unique key (acc, seen) [] = (acc, seen)"
| "add_unique key (acc, seen) (c # cs) =
     (if key c \<notin> seen
      then add_unique key (acc @ [c], insert (key c) seen) cs
      else add_unique key (acc, seen) cs)"

text \<open>Lines 299 to 317 of \<open>main\<close>: the stored lists are what is written back.\<close>

definition merge_enhanced :: "store \<Rightarrow> entity list \<Rightarrow> event list \<Rightarrow> store" where
  "merge_enhanced st new_entities new_events =
     (let existing_names = set (map name (entities st));
          existing_ids = set (map event_id (events st));
          ents = fst (add_unique name (entities st, existing_names) new_entities);
          evs = fst (add_unique event_id (events st, existing_ids) new_events)
      in \<lparr>entities = sort_key name ents,
          events = sort_key_reverse timestamp evs\<rparr>)"

section \<open>The merge of \<open>extract_papers.py\<close>\<close>

text \<open>
  Lines 174 to 187 of \<open>main\<close>: the candidates are filtered against the keys of the
  existing store only, then appended.
\<close>

definition merge_papers :: "store \<Rightarrow> entity list \<Rightarrow> event list \<Rightarrow> store" where
  "merge_papers st ents evs =
     (let existing_entity_names = set (map name (entities st));
          existing_event_ids = set (map event_id (events st));
          new_entities = filter (\<lambda>e. name e \<notin> existing_entity_names) ents;
          new_events = filter (\<lambda>e. event_id e \<notin> existing_event_ids) evs;
          all_entities = entities st @ new_entities;
          all_events = events st @ new_events
      in \<lparr>entities = sort_key name all_entities,
          events = sort_key_reverse timestamp all_events\<rparr>)"

section \<open>Pieces of the Python runtime\<close>

text \<open>
  \<open>str(n)\<close> and \<open>f"{n}"\<close> of a non-negative integer: its decimal digits in ASCII.
\<close>

fun str_nat :: "nat \<Rightarrow> pystr" where
  "str_nat n = (if n < 10 then [48 + n] else str_nat (n div 10) @ [48 + n mod 10])"

declare str_nat.simps [simp del]

definition str_int :: "int \<Rightarrow> pystr" where
  "str_int i = (if i < 0 then 45 # str_nat (nat (- i)) else str_nat (nat i))"

text \<open>
  The regular expression class \<open>\d\<close> on a \<open>str\<close> pattern and the builtin \<open>int\<close> both
  consult the decimal-digit table of the Unicode database of the interpreter: a code point
  is a digit when the table gives it a value. The ASCII digits are in the table with their
  usual values; the remainder of the table belongs to the interpreter, not to the
  repository, and is the parameter \<open>ext\<close>.
\<close>

definition py_decimal :: "(nat \<Rightarrow> nat option) \<Rightarrow> nat \<Rightarrow> nat option" where
  "py_decimal ext c = (if 48 \<le> c \<and> c \<le> 57 then Some (c - 48) else ext c)"

text \<open>The table of an interpreter that knows the ASCII digits only.\<close>

definition ascii_only :: "nat \<Rightarrow> nat option" where
  "ascii_only c = None"

text \<open>\<open>int(s)\<close> on a string of decimal digits; \<open>None\<close> stands for \<open>ValueError\<close>.\<close>

fun py_int_from :: "(nat \<Rightarrow> nat option) \<Rightarrow> nat \<Rightarrow> pystr \<Rightarrow> nat option" where
  "py_int_from ext acc [] = Some acc"
| "py_int_from ext acc (c # cs) =
     (case py_decimal ext c of
        None \<Rightarrow> None
      | Some v \<Rightarrow> py_int_from ext (10 * acc + v) cs)"

definition py_int :: "(nat \<Rightarrow> nat option) \<Rightarrow> pystr \<Rightarrow> nat option" where
  "py_int ext s = (if s = [] then None else py_int_from ext 0 s)"

text \<open>\<open>sep.join(xs)\<close>.\<close>

fun join :: "pystr \<Rightarrow> pystr list \<Rightarrow> pystr" where
  "join sep [] = []"
| "join sep [x] = x"
| "join sep (x # y # ys) = x @ sep @ join sep (y # ys)"

text \<open>\<open>s.replace(a, b)\<close> for one-character strings \<open>a\<close> and \<open>b\<close>.\<close>

definition replace_char :: "nat \<Rightarrow> nat \<Rightarrow> pystr \<Rightarrow> pystr" where
  "replace_char a b s = map (\<lambda>c. if c = a then b else c) s"

section \<open>Year extraction\<close>

text \<open>
  \<^verbatim>\<open>re.search(r'/abs/(\d{2})(\d{2})', url)\<close>: the pattern is tried at every position from
  the left, and the first position where it matches gives the two groups.
  \<open>match_abs\<close> is the pattern anchored at the head of the string.
\<close>

definition match_abs :: "(nat \<Rightarrow> nat option) \<Rightarrow> pystr \<Rightarrow> (pystr \<times> pystr) option" where
  "match_abs ext s =
     (if take 5 s = lit ''/abs/''
      then (case drop 5 s of
              d1 # d2 # d3 # d4 # _ \<Rightarrow>
                (if py_decimal ext d1 \<noteq> None \<and> py_decimal ext d2 \<noteq> None \<and>
                    py_decimal ext d3 \<noteq> None \<and> py_decimal ext d4 \<noteq> None
                 then Some ([d1, d2], [d3, d4]) else None)
            | _ \<Rightarrow> None)
      else None)"

fun search_abs :: "(nat \<Rightarrow> nat option) \<Rightarrow> pystr \<Rightarrow> (pystr \<times> pystr) option" where
  "search_abs ext [] = match_abs ext []"
| "search_abs ext (c # cs) =
     (case match_abs ext (c # cs) of
        Some g \<Rightarrow> Some g
      | None \<Rightarrow> search_abs ext cs)"

text \<open>
  \<open>extract_year_from_url\<close> of \<open>enhance_extraction.py\<close>. The result \<open>None\<close> is Python's
  \<open>None\<close>; \<open>int\<close> is applied to two digits only, so its \<open>ValueError\<close> branch is never
  taken (lemma \<open>search_abs_int\<close>).
\<close>

definition extract_year_from_url :: "(nat \<Rightarrow> nat option) \<Rightarrow> pystr \<Rightarrow> nat option" where
  "extract_year_from_url ext url =
     (if sublist (lit ''arxiv.org'') url
      then (case search_abs ext url of
              Some (g1, g2) \<Rightarrow>
                (case py_int ext g1 of
                   Some year_prefix \<Rightarrow> Some (2000 + year_prefix)
                 | None \<Rightarrow> None)
            | None \<Rightarrow> None)
      else None)"

text \<open>
  \<open>extract_year_from_url\<close> of \<open>extract_papers.py\<close>, which adds the test
  \<open>year_prefix >= 0\<close>.
\<close>

definition extract_year_from_url_papers :: "(nat \<Rightarrow> nat option) \<Rightarrow> pystr \<Rightarrow> nat option" where
  "extract_year_from_url_papers ext url =
     (if sublist (lit ''arxiv.org'') url
      then (case search_abs ext url of
              Some (g1, g2) \<Rightarrow>
                (case py_int ext g1 of
                   Some year_prefix \<Rightarrow>
                     (if 0 \<le> year_prefix then Some (2000 + year_prefix) else None)
                 | None \<Rightarrow> None)
            | None \<Rightarrow> None)
      else None)"

section \<open>The parenthesized-acronym pass of \<open>extract_models_from_text\<close>\<close>

text \<open>
  \<^verbatim>\<open>acronym_pattern = r'\(([A-Z]{2,}[A-Za-z0-9\-]*)\)'\<close>. Without a flag the classes are
  ranges of ASCII code points.
\<close>

definition is_upper :: "nat \<Rightarrow> bool" where
  "is_upper c = (65 \<le> c \<and> c \<le> 90)"

definition is_acronym_tail :: "nat \<Rightarrow> bool" where
  "is_acronym_tail c =
     ((65 \<le> c \<and> c \<le> 90) \<or> (97 \<le> c \<and> c \<le> 122) \<or> (48 \<le> c \<and> c \<le> 57) \<or> c = 45)"

text \<open>
  The pattern anchored at the head of the string. After the opening parenthesis both
  classes are taken greedily; the closing parenthesis is in neither class, so the only way
  for the pattern to match is that the longest run of tail characters is followed by it,
  and the run starts with two upper-case letters. The group is the run.
\<close>

definition match_acronym :: "pystr \<Rightarrow> pystr option" where
  "match_acronym s =
     (case s of
        [] \<Rightarrow> None
      | c # rest \<Rightarrow>
          (if c = 40
           then (let tok = takeWhile is_acronym_tail rest;
                     after = dropWhile is_acronym_tail rest
                 in if 2 \<le> length (takeWhile is_upper tok) \<and> take 1 after = [41]
                    then Some tok else None)
           else None))"

text \<open>
  \<^verbatim>\<open>re.findall(acronym_pattern, text)\<close>: the matches from left to right, the scan going
  on behind each match.
\<close>

fun findall_acronym :: "pystr \<Rightarrow> pystr list" where
  "findall_acronym [] = []"
| "findall_acronym (c # cs) =
     (case match_acronym (c # cs) of
        Some tok \<Rightarrow> tok # findall_acronym (drop (length tok + 1) cs)
      | None \<Rightarrow> findall_acronym cs)"

text \<open>\<^verbatim>\<open>models.update(m for m in matches if 2 < len(m) < 15)\<close>\<close>

definition acronym_pass :: "pystr \<Rightarrow> pystr list" where
  "acronym_pass text = filter (\<lambda>m. 2 < length m \<and> length m < 15) (findall_acronym text)"

section \<open>Paper records\<close>

text \<open>
  A point of the collection: its \<open>id\<close> (an integer or a string in the JSON of the source)
  and the fields of its payload. \<open>payload.get(key, default)\<close> makes a missing field its
  default, so every field is present here. \<open>str(paper_id)\<close> is \<open>str_id\<close>.
\<close>

datatype point_id = IntId int | StrId pystr

fun str_id :: "point_id \<Rightarrow> pystr" where
  "str_id (IntId i) = str_int i"
| "str_id (StrId s) = s"

record paper =
  paper_id :: point_id
  title :: pystr
  authors :: "pystr list"
  categories :: "pystr list"
  abstract :: pystr
  url :: pystr

section \<open>Topic classification\<close>

definition topic_keywords :: "(pystr \<times> pystr list) list" where
  "topic_keywords =
     [(lit ''language-models'',
         map lit [''language model'', ''llm'', ''gpt'', ''bert'', ''transformer'', ''nlp'',
                  ''text generation'']),
      (lit ''computer-vision'',
         map lit [''vision'', ''image'', ''visual'', ''detection'', ''segmentation'', ''cv'',
                  ''cnn'']),
      (lit ''reinforcement-learning'',
         map lit [''reinforcement learning'', ''rl'', ''agent'', ''reward'', ''policy'',
                  ''q-learning'']),
      (lit ''generative-ai'',
         map lit [''generative'', ''diffusion'', ''gan'', ''vae'', ''synthesis'', ''generation'']),
      (lit ''multimodal'',
         map lit [''multimodal'', ''cross-modal'', ''vision-language'', ''clip'', ''dalle'']),
      (lit ''optimization'',
         map lit [''optimization'', ''efficient'', ''compression'', ''quantization'', ''pruning'']),
      (lit ''robotics'',
         map lit [''robot'', ''robotic'', ''manipulation'', ''navigation'', ''embodied'']),
      (lit ''security'',
         map lit [''security'', ''privacy'', ''adversarial'', ''attack'', ''defense'', ''safety'']),
      (lit ''theory'',
         map lit [''theory'', ''theoretical'', ''proof'', ''bound'', ''convergence'',
                  ''complexity'']),
      (lit ''applications'',
         map lit [''application'', ''medical'', ''finance'', ''science'', ''engineering'',
                  ''biology''])]"

text \<open>
  \<open>categorize_paper\<close>. \<open>str.lower\<close> follows the case mappings of the Unicode database of
  the interpreter and is the parameter \<open>lower\<close>. The argument \<open>categories\<close> is not used by
  the source either.
\<close>

definition categorize_paper ::
    "(pystr \<Rightarrow> pystr) \<Rightarrow> pystr \<Rightarrow> pystr \<Rightarrow> pystr list \<Rightarrow> pystr list" where
  "categorize_paper lower ttl abstr cats =
     (let text = lower (ttl @ lit '' '' @ abstr)
      in map fst
           (filter (\<lambda>(topic, keywords). list_ex (\<lambda>keyword. sublist keyword text) keywords)
              topic_keywords))"

section \<open>Counters\<close>

text \<open>
  A \<open>collections.Counter\<close> (and the \<open>defaultdict(int)\<close> of \<open>extract_papers.py\<close>) keeps
  its keys in the order of their first insertion: an association list. \<open>incr k c\<close> is
  \<open>c[k] += 1\<close>.
\<close>

type_synonym 'k counter = "('k \<times> nat) list"

fun incr :: "'k \<Rightarrow> 'k counter \<Rightarrow> 'k counter" where
  "incr k [] = [(k, 1)]"
| "incr k ((k', n) # c) = (if k = k' then (k', n + 1) # c else (k', n) # incr k c)"

text \<open>
  \<open>c.most_common(n)\<close>: the items by descending count, items of equal count in the order
  first encountered, cut to \<open>n\<close> items when \<open>n\<close> is given.
\<close>

definition most_common :: "nat option \<Rightarrow> 'k counter \<Rightarrow> ('k \<times> nat) list" where
  "most_common n c =
     (case n of
        None \<Rightarrow> sort_key_reverse snd c
      | Some k \<Rightarrow> take k (sort_key_reverse snd c))"

section \<open>The loop of \<open>enhanced_extraction\<close>\<close>

text \<open>
  The state of the loop over the papers: three of the counters and the list of events.
  The counters \<open>model_stats\<close> and \<open>institution_stats\<close> feed the model and institution
  entities only and are left out.
\<close>

record tally =
  author_stats :: "pystr counter"
  topic_stats :: "pystr counter"
  yearly_stats :: "nat counter"
  loop_events :: "event list"

definition publication_event :: "nat \<Rightarrow> paper \<Rightarrow> pystr list \<Rightarrow> event" where
  "publication_event year p topics =
     \<lparr>event_id = str_nat year @ lit ''-'' @ take 8 (str_id (paper_id p)),
      timestamp = str_nat year @ lit ''-01-01T00:00:00Z'',
      description = title p,
      category = (case topics of [] \<Rightarrow> lit ''research'' | t # _ \<Rightarrow> t)\<rparr>"

text \<open>
  One iteration. \<open>if year:\<close> holds when \<open>year\<close> is neither \<open>None\<close> nor zero,
  \<open>if author:\<close> and \<open>title\<close> when the string is not empty.
\<close>

definition paper_step ::
    "(nat \<Rightarrow> nat option) \<Rightarrow> (pystr \<Rightarrow> pystr) \<Rightarrow> tally \<Rightarrow> paper \<Rightarrow> tally" where
  "paper_step ext lower s p =
     (let year = extract_year_from_url ext (url p);
          yearly = (case year of
                      None \<Rightarrow> yearly_stats s
                    | Some y \<Rightarrow> if y \<noteq> 0 then incr y (yearly_stats s) else yearly_stats s);
          topics = categorize_paper lower (title p) (abstract p) (categories p);
          topic = foldl (\<lambda>c t. incr t c) (topic_stats s) topics;
          author = foldl (\<lambda>c a. if a \<noteq> [] then incr a c else c) (author_stats s) (authors p);
          evs = (case year of
                   None \<Rightarrow> loop_events s
                 | Some y \<Rightarrow>
                     if title p \<noteq> [] \<and> y \<noteq> 0
                     then loop_events s @ [publication_event y p topics]
                     else loop_events s)
      in \<lparr>author_stats = author, topic_stats = topic, yearly_stats = yearly,
          loop_events = evs\<rparr>)"

definition empty_tally :: tally where
  "empty_tally = \<lparr>author_stats = [], topic_stats = [], yearly_stats = [], loop_events = []\<rparr>"

definition paper_loop ::
    "(nat \<Rightarrow> nat option) \<Rightarrow> (pystr \<Rightarrow> pystr) \<Rightarrow> paper list \<Rightarrow> tally" where
  "paper_loop ext lower papers = foldl (paper_step ext lower) empty_tally papers"

section \<open>Entity and event synthesis of \<open>enhanced_extraction\<close>\<close>

definition author_entity :: "pystr \<Rightarrow> nat \<Rightarrow> entity" where
  "author_entity author cnt =
     \<lparr>name = author,
      summary = lit ''Prolific researcher with '' @ str_nat cnt @
                lit '' papers in machine learning and AI. Active in cutting-edge research.'',
      tags = map lit [''researcher'', ''ai-researcher'', ''prolific-author'']\<rparr>"

text \<open>
  \<^verbatim>\<open>
  for author, count in author_stats.most_common(200):
      if count >= 2:
          entities.append(entity)
  \<close>
\<close>

definition author_entities :: "pystr counter \<Rightarrow> entity list" where
  "author_entities stats =
     map (\<lambda>(author, cnt). author_entity author cnt)
       (filter (\<lambda>(author, cnt). 2 \<le> cnt) (most_common (Some 200) stats))"

definition trend_event :: "pystr \<Rightarrow> nat \<Rightarrow> event" where
  "trend_event topic cnt =
     \<lparr>event_id = lit ''2024-trend-'' @ topic,
      timestamp = lit ''2024-06-01T00:00:00Z'',
      description = lit ''Research trend: '' @ str_nat cnt @ lit '' papers in '' @
                    replace_char 45 32 topic @ lit '' showing significant academic focus'',
      category = lit ''research-trend''\<rparr>"

definition yearly_event :: "nat \<Rightarrow> nat \<Rightarrow> event" where
  "yearly_event year cnt =
     \<lparr>event_id = str_nat year @ lit ''-research-milestone'',
      timestamp = str_nat year @ lit ''-06-01T00:00:00Z'',
      description = lit ''Research milestone: '' @ str_nat cnt @
                    lit '' significant AI/ML papers published in '' @ str_nat year,
      category = lit ''yearly-milestone''\<rparr>"

text \<open>The list \<open>events\<close> that \<open>enhanced_extraction\<close> returns.\<close>

definition enhanced_extraction_events ::
    "(nat \<Rightarrow> nat option) \<Rightarrow> (pystr \<Rightarrow> pystr) \<Rightarrow> paper list \<Rightarrow> event list" where
  "enhanced_extraction_events ext lower papers =
     (let s = paper_loop ext lower papers
      in loop_events s
         @ map (\<lambda>(topic, cnt). trend_event topic cnt)
             (filter (\<lambda>(topic, cnt). 20 \<le> cnt) (most_common None (topic_stats s)))
         @ map (\<lambda>(year, cnt). yearly_event year cnt)
             (filter (\<lambda>(year, cnt). 50 \<le> cnt) (most_common None (yearly_stats s))))"

section \<open>The events of \<open>process_papers_to_entities_and_events\<close>\<close>

definition paper_published_event :: "nat \<Rightarrow> paper \<Rightarrow> event" where
  "paper_published_event year p =
     \<lparr>event_id = str_nat year @ lit ''-paper-'' @ str_id (paper_id p),
      timestamp = str_nat year @ lit ''-01-01T00:00:00Z'',
      description = lit ''Paper published: '' @ [39] @ title p @ [39] @ lit '' by '' @
                    join (lit '', '') (take 3 (authors p)) @
                    (if 3 < length (authors p) then lit ''...'' else []),
      category = lit ''research-publication''\<rparr>"

text \<open>The part of the first loop that appends to \<open>events\<close>.\<close>

definition published_step :: "(nat \<Rightarrow> nat option) \<Rightarrow> event list \<Rightarrow> paper \<Rightarrow> event list" where
  "published_step ext evs p =
     (case extract_year_from_url_papers ext (url p) of
        None \<Rightarrow> evs
      | Some y \<Rightarrow> if title p \<noteq> [] \<and> y \<noteq> 0 then evs @ [paper_published_event y p] else evs)"

definition category_counts :: "paper list \<Rightarrow> pystr counter" where
  "category_counts papers =
     foldl (\<lambda>c p. foldl (\<lambda>c cat. incr cat c) c (categories p)) [] papers"

definition category_event :: "pystr \<Rightarrow> nat \<Rightarrow> event" where
  "category_event cat cnt =
     \<lparr>event_id = lit ''2024-category-milestone-'' @ replace_char 46 45 cat,
      timestamp = lit ''2024-01-01T00:00:00Z'',
      description = lit ''Research milestone: '' @ str_nat cnt @ lit '' papers in '' @ cat @
                    lit '' category demonstrating significant activity in this field'',
      category = lit ''research-milestone''\<rparr>"

text \<open>The list \<open>events\<close> that \<open>process_papers_to_entities_and_events\<close> returns.\<close>

definition process_papers_events :: "(nat \<Rightarrow> nat option) \<Rightarrow> paper list \<Rightarrow> event list" where
  "process_papers_events ext papers =
     foldl (published_step ext) [] papers
     @ map (\<lambda>(cat, cnt). category_event cat cnt)
         (filter (\<lambda>(cat, cnt). 50 \<le> cnt) (category_counts papers))"

section \<open>Inputs of the examples\<close>

text \<open>
  The characters that the wording "all-caps token optionally extended with hyphens/digits"
  allows in a token.
\<close>

definition spec_acronym_char :: "nat \<Rightarrow> bool" where
  "spec_acronym_char c = ((65 \<le> c \<and> c \<le> 90) \<or> (48 \<le> c \<and> c \<le> 57) \<or> c = 45)"

text \<open>A counter of 201 authors, \<open>a0\<close> to \<open>a200\<close>, with two papers each.\<close>

definition crowd_stats :: "pystr counter" where
  "crowd_stats = map (\<lambda>i. (lit ''a'' @ str_nat i, 2)) [0..<201]"

text \<open>A corpus of a hundred papers, fifty in the category \<open>cs.AI\<close> and fifty in \<open>cs-AI\<close>.\<close>

definition category_paper :: "pystr \<Rightarrow> paper" where
  "category_paper cat =
     \<lparr>paper_id = IntId 0, title = [], authors = [], categories = [cat], abstract = [],
      url = []\<rparr>"

definition colliding_corpus :: "paper list" where
  "colliding_corpus =
     replicate 50 (category_paper (lit ''cs.AI'')) @ replicate 50 (category_paper (lit ''cs-AI''))"

definition empty_store :: store where
  "empty_store = \<lparr>entities = [], events = []\<rparr>"

text \<open>A stored entity, and two candidates of one name; two candidate events of one id.\<close>

definition bert_stored :: entity where
  "bert_stored = \<lparr>name = lit ''BERT'', summary = lit ''stored'', tags = []\<rparr>"

definition gpt_first :: entity where
  "gpt_first = \<lparr>name = lit ''GPT'', summary = lit ''first'', tags = []\<rparr>"

definition gpt_second :: entity where
  "gpt_second = \<lparr>name = lit ''GPT'', summary = lit ''second'', tags = []\<rparr>"

definition event_first :: event where
  "event_first =
     \<lparr>event_id = lit ''2024-a'', timestamp = lit ''2024-01-01T00:00:00Z'',
      description = lit ''first'', category = lit ''research''\<rparr>"

definition event_second :: event where
  "event_second =
     \<lparr>event_id = lit ''2024-a'', timestamp = lit ''2024-01-01T00:00:00Z'',
      description = lit ''second'', category = lit ''research''\<rparr>"

text \<open>
  A case mapping that knows the ASCII letters only, and a paper with an arXiv url.
\<close>

definition ascii_lower :: "pystr \<Rightarrow> pystr" where
  "ascii_lower s = map (\<lambda>c. if 65 \<le> c \<and> c \<le> 90 then c + 32 else c) s"

definition sample_paper :: paper where
  "sample_paper =
     \<lparr>paper_id = StrId (lit ''0a1b2c3d-4e5f-6789''),
      title = lit ''Attention'',
      authors = [lit ''A. Author''],
      categories = [lit ''cs.CL''],
      abstract = lit ''We study a language model.'',
      url = lit ''https://arxiv.org/abs/2502.19614''\<rparr>"

text \<open>A counter with an author of one paper and an author of two.\<close>

definition small_stats :: "pystr counter" where
  "small_stats = [(lit ''Ada'', 1), (lit ''Bob'', 2)]"

section \<open>Properties of the sort\<close>

lemma set_sort_key_reverse: "set (sort_key_reverse f xs) = set xs"
  by (simp add: sort_key_reverse_def)

lemma mset_sort_key_reverse: "mset (sort_key_reverse f xs) = mset xs"
  by (simp add: sort_key_reverse_def)

lemma sorted_sort_key_reverse: "sorted (rev (map f (sort_key_reverse f xs)))"
  by (simp add: sort_key_reverse_def rev_map)

lemma sort_key_reverse_idem:
  "sort_key_reverse f (sort_key_reverse f xs) = sort_key_reverse f xs"
proof -
  have "sort_key f (sort_key f (rev xs)) = sort_key f (rev xs)"
    by (rule sort_key_id_if_sorted) simp
  then show ?thesis by (simp add: sort_key_reverse_def)
qed

lemma sort_key_idem: "sort_key f (sort_key f xs) = sort_key f xs"
  by (rule sort_key_id_if_sorted) simp

section \<open>Properties of the loop\<close>

lemma add_unique_seen_covers:
  "key ` set cs \<subseteq> seen \<Longrightarrow> add_unique key (acc, seen) cs = (acc, seen)"
  by (induction cs) auto


lemma add_unique_nths:
  "add_unique key (acc, seen) cs =
     (acc @ nths cs {i. key (cs ! i) \<notin> seen \<and> key (cs ! i) \<notin> key ` set (take i cs)},
      seen \<union> key ` set cs)"
proof (induction cs arbitrary: acc seen)
  case Nil
  then show ?case by simp
next
  case (Cons c cs)
  show ?case
  proof (cases "key c \<in> seen")
    case True
    then have "{j. key ((c # cs) ! Suc j) \<notin> seen \<and> key ((c # cs) ! Suc j) \<notin> key ` set (take (Suc j) (c # cs))}
        = {i. key (cs ! i) \<notin> seen \<and> key (cs ! i) \<notin> key ` set (take i cs)}"
      by auto
    with True show ?thesis
      by (simp add: Cons.IH nths_Cons del: nth_Cons_Suc take_Suc_Cons) auto
  next
    case False
    then have "{j. key ((c # cs) ! Suc j) \<notin> seen \<and> key ((c # cs) ! Suc j) \<notin> key ` set (take (Suc j) (c # cs))}
        = {i. key (cs ! i) \<notin> insert (key c) seen \<and> key (cs ! i) \<notin> key ` set (take i cs)}"
      by auto
    with False show ?thesis
      by (simp add: Cons.IH nths_Cons del: nth_Cons_Suc take_Suc_Cons) 
  qed
qed

lemma add_unique_distinct:
  "distinct (map key acc) \<Longrightarrow> key ` set acc \<subseteq> seen \<Longrightarrow>
   distinct (map key (fst (add_unique key (acc, seen) cs)))"
proof (induction cs arbitrary: acc seen)
  case Nil
  then show ?case by simp
next
  case (Cons c cs)
  show ?case
  proof (cases "key c \<in> seen")
    case True
    with Cons show ?thesis by simp
  next
    case False
    with Cons.prems have "distinct (map key (acc @ [c]))" "key ` set (acc @ [c]) \<subseteq> insert (key c) seen"
      by auto
    from Cons.IH[OF this] False show ?thesis by simp
  qed
qed

lemma distinct_map_sort_key: "distinct (map g (sort_key f xs)) = distinct (map g xs)"
proof -
  have "mset (map g (sort_key f xs)) = mset (map g xs)" by simp
  then show ?thesis by (rule mset_eq_imp_distinct_iff)
qed

lemma distinct_map_sort_key_reverse:
  "distinct (map g (sort_key_reverse f xs)) = distinct (map g xs)"
proof -
  have "mset (map g (sort_key_reverse f xs)) = mset (map g xs)"
    by (simp add: mset_sort_key_reverse)
  then show ?thesis by (rule mset_eq_imp_distinct_iff)
qed

lemma add_unique_inv:
  "seen = key ` set acc \<Longrightarrow> snd (add_unique key (acc, seen) cs) = key ` set (fst (add_unique key (acc, seen) cs))"
proof (induction cs arbitrary: acc seen)
  case Nil
  then show ?case by simp
next
  case (Cons c cs)
  show ?case
  proof (cases "key c \<in> seen")
    case True
    with Cons show ?thesis by simp
  next
    case False
    from Cons.prems have "insert (key c) seen = key ` set (acc @ [c])" by auto
    from Cons.IH[OF this] False show ?thesis by simp
  qed
qed

lemma add_unique_covers_candidates:
  "key ` set cs \<subseteq> key ` set (fst (add_unique key (acc, key ` set acc) cs))"
proof -
  have "key ` set (fst (add_unique key (acc, key ` set acc) cs)) = snd (add_unique key (acc, key ` set acc) cs)"
    by (rule add_unique_inv[symmetric]) simp
  also have "\<dots> = key ` set acc \<union> key ` set cs"
    by (simp add: add_unique_nths)
  finally show ?thesis by simp
qed

lemma merge_enhanced_twice:
  "merge_enhanced (merge_enhanced st ce cv) ce cv = merge_enhanced st ce cv"
proof -
  let ?ents = "fst (add_unique name (entities st, name ` set (entities st)) ce)"
  let ?evs = "fst (add_unique event_id (events st, event_id ` set (events st)) cv)"
  have e: "add_unique name (sort_key name ?ents, name ` set ?ents) ce = (sort_key name ?ents, name ` set ?ents)"
    by (rule add_unique_seen_covers) (rule add_unique_covers_candidates)
  have v: "add_unique event_id (sort_key_reverse timestamp ?evs, event_id ` set ?evs) cv
            = (sort_key_reverse timestamp ?evs, event_id ` set ?evs)"
    by (rule add_unique_seen_covers) (rule add_unique_covers_candidates)
  show ?thesis
    by (simp add: merge_enhanced_def Let_def e v set_sort_key_reverse sort_key_idem sort_key_reverse_idem)
qed

lemma filter_again:
  "filter (\<lambda>e. key e \<notin> key ` (set xs \<union> {c \<in> set cs. key c \<notin> key ` set xs})) cs = []"
  by (auto simp: filter_empty_conv)

lemma merge_papers_twice:
  "merge_papers (merge_papers st ce cv) ce cv = merge_papers st ce cv"
  by (simp add: merge_papers_def Let_def set_sort_key_reverse sort_key_idem sort_key_reverse_idem filter_again)

section \<open>The merge: idempotence, frame, order, first occurrences\<close>


text \<open>
  Claim C1. Running the merge a second time, with the same candidates, on the store that
  the first run produced changes nothing: the store is the same list of records, hence the
  same set of entities and of events. This holds for the merge of either script.
\<close>

theorem merge_idempotent:
  "merge_enhanced (merge_enhanced st ce cv) ce cv = merge_enhanced st ce cv \<and>
   set (entities (merge_enhanced (merge_enhanced st ce cv) ce cv)) = set (entities (merge_enhanced st ce cv)) \<and>
   set (events (merge_enhanced (merge_enhanced st ce cv) ce cv)) = set (events (merge_enhanced st ce cv)) \<and>
   merge_papers (merge_papers st ce cv) ce cv = merge_papers st ce cv \<and>
   set (entities (merge_papers (merge_papers st ce cv) ce cv)) = set (entities (merge_papers st ce cv)) \<and>
   set (events (merge_papers (merge_papers st ce cv) ce cv)) = set (events (merge_papers st ce cv))"
  by (simp only: merge_enhanced_twice merge_papers_twice simp_thms)

lemma merge_enhanced_entities:
  "entities (merge_enhanced st ce cv) =
     sort_key name (entities st @
       nths ce {i. name (ce ! i) \<notin> name ` set (entities st) \<and> name (ce ! i) \<notin> name ` set (take i ce)})"
  by (simp add: merge_enhanced_def Let_def add_unique_nths)

lemma merge_enhanced_events:
  "events (merge_enhanced st ce cv) =
     sort_key_reverse timestamp (events st @
       nths cv {i. event_id (cv ! i) \<notin> event_id ` set (events st) \<and>
                   event_id (cv ! i) \<notin> event_id ` set (take i cv)})"
  by (simp add: merge_enhanced_def Let_def add_unique_nths)

lemma subseq_nths_self: "subseq (nths xs I) xs"
  using subseq_conv_nths by blast

lemma nths_unseen_disjoint:
  "key ` set (nths cs {i. key (cs ! i) \<notin> S \<and> Q i}) \<inter> S = {}"
  by (auto simp: set_nths)

lemma filter_unseen_disjoint: "key ` set (filter (\<lambda>e. key e \<notin> S) cs) \<inter> S = {}"
  by auto

text \<open>
  Claim C3. The merged lists are the existing records followed by added records, sorted:
  the added records are candidates in candidate order (a subsequence of the candidate
  list), none of them has a key of the existing store, and as a multiset the output is the
  existing records plus the added ones, so every existing record is still there, unchanged,
  and nothing is removed. This holds for the merge of either script.
\<close>

theorem merge_frame:
  "(\<exists>added_e added_v.
      subseq added_e ce \<and> name ` set added_e \<inter> name ` set (entities st) = {} \<and>
      subseq added_v cv \<and> event_id ` set added_v \<inter> event_id ` set (events st) = {} \<and>
      entities (merge_enhanced st ce cv) = sort_key name (entities st @ added_e) \<and>
      events (merge_enhanced st ce cv) = sort_key_reverse timestamp (events st @ added_v) \<and>
      mset (entities (merge_enhanced st ce cv)) = mset (entities st) + mset added_e \<and>
      mset (events (merge_enhanced st ce cv)) = mset (events st) + mset added_v) \<and>
   (\<exists>added_e added_v.
      subseq added_e ce \<and> name ` set added_e \<inter> name ` set (entities st) = {} \<and>
      subseq added_v cv \<and> event_id ` set added_v \<inter> event_id ` set (events st) = {} \<and>
      entities (merge_papers st ce cv) = sort_key name (entities st @ added_e) \<and>
      events (merge_papers st ce cv) = sort_key_reverse timestamp (events st @ added_v) \<and>
      mset (entities (merge_papers st ce cv)) = mset (entities st) + mset added_e \<and>
      mset (events (merge_papers st ce cv)) = mset (events st) + mset added_v)"
proof
  let ?ae = "nths ce {i. name (ce ! i) \<notin> name ` set (entities st) \<and> name (ce ! i) \<notin> name ` set (take i ce)}"
  let ?av = "nths cv {i. event_id (cv ! i) \<notin> event_id ` set (events st) \<and>
                   event_id (cv ! i) \<notin> event_id ` set (take i cv)}"
  have "subseq ?ae ce" "subseq ?av cv" by (rule subseq_nths_self)+
  moreover have "name ` set ?ae \<inter> name ` set (entities st) = {}"
    by (rule nths_unseen_disjoint)
  moreover have "event_id ` set ?av \<inter> event_id ` set (events st) = {}"
    by (rule nths_unseen_disjoint)
  moreover have "entities (merge_enhanced st ce cv) = sort_key name (entities st @ ?ae)"
    by (rule merge_enhanced_entities)
  moreover have "events (merge_enhanced st ce cv) = sort_key_reverse timestamp (events st @ ?av)"
    by (rule merge_enhanced_events)
  moreover have "mset (entities (merge_enhanced st ce cv)) = mset (entities st) + mset ?ae"
    by (simp add: merge_enhanced_entities)
  moreover have "mset (events (merge_enhanced st ce cv)) = mset (events st) + mset ?av"
    by (simp add: merge_enhanced_events mset_sort_key_reverse)
  ultimately show "\<exists>added_e added_v.
      subseq added_e ce \<and> name ` set added_e \<inter> name ` set (entities st) = {} \<and>
      subseq added_v cv \<and> event_id ` set added_v \<inter> event_id ` set (events st) = {} \<and>
      entities (merge_enhanced st ce cv) = sort_key name (entities st @ added_e) \<and>
      events (merge_enhanced st ce cv) = sort_key_reverse timestamp (events st @ added_v) \<and>
      mset (entities (merge_enhanced st ce cv)) = mset (entities st) + mset added_e \<and>
      mset (events (merge_enhanced st ce cv)) = mset (events st) + mset added_v"
    by blast
next
  let ?ae = "filter (\<lambda>e. name e \<notin> name ` set (entities st)) ce"
  let ?av = "filter (\<lambda>e. event_id e \<notin> event_id ` set (events st)) cv"
  have "subseq ?ae ce" "subseq ?av cv" by simp_all
  moreover have "name ` set ?ae \<inter> name ` set (entities st) = {}"
    by (rule filter_unseen_disjoint)
  moreover have "event_id ` set ?av \<inter> event_id ` set (events st) = {}"
    by (rule filter_unseen_disjoint)
  moreover have "entities (merge_papers st ce cv) = sort_key name (entities st @ ?ae)"
    by (simp add: merge_papers_def Let_def)
  moreover have "events (merge_papers st ce cv) = sort_key_reverse timestamp (events st @ ?av)"
    by (simp add: merge_papers_def Let_def)
  moreover have "mset (entities (merge_papers st ce cv)) = mset (entities st) + mset ?ae"
    by (simp add: merge_papers_def Let_def)
  moreover have "mset (events (merge_papers st ce cv)) = mset (events st) + mset ?av"
    by (simp add: merge_papers_def Let_def mset_sort_key_reverse)
  ultimately show "\<exists>added_e added_v.
      subseq added_e ce \<and> name ` set added_e \<inter> name ` set (entities st) = {} \<and>
      subseq added_v cv \<and> event_id ` set added_v \<inter> event_id ` set (events st) = {} \<and>
      entities (merge_papers st ce cv) = sort_key name (entities st @ added_e) \<and>
      events (merge_papers st ce cv) = sort_key_reverse timestamp (events st @ added_v) \<and>
      mset (entities (merge_papers st ce cv)) = mset (entities st) + mset added_e \<and>
      mset (events (merge_papers st ce cv)) = mset (events st) + mset added_v"
    by blast
qed

lemma sorted_desc_sort_key_reverse:
  "sorted_wrt (\<lambda>a b. b \<le> a) (map f (sort_key_reverse f xs))"
proof -
  have "sorted (rev (map f (sort_key_reverse f xs)))" by (rule sorted_sort_key_reverse)
  then show ?thesis by (simp add: sorted_wrt_rev)
qed

text \<open>
  Claim C4. After the merge the entities are in non-decreasing order of \<open>name\<close> and the
  events in non-increasing order of \<open>timestamp\<close>, for the merge of either script.
\<close>

theorem merge_sorted:
  "sorted (map name (entities (merge_enhanced st ce cv))) \<and>
   sorted_wrt (\<lambda>a b. b \<le> a) (map timestamp (events (merge_enhanced st ce cv))) \<and>
   sorted (map name (entities (merge_papers st ce cv))) \<and>
   sorted_wrt (\<lambda>a b. b \<le> a) (map timestamp (events (merge_papers st ce cv)))"
  by (simp add: merge_enhanced_def merge_papers_def Let_def sorted_desc_sort_key_reverse)

text \<open>
  Claim C10. In the merge of \<open>enhance_extraction.py\<close> the candidate at position \<open>i\<close> is
  appended exactly when its key is neither in the existing store nor the key of an earlier
  candidate: of candidates sharing a key only the first is appended. So a store with
  pairwise distinct keys stays one, whatever the candidates are.
\<close>

theorem merge_enhanced_first_occurrence:
  "entities (merge_enhanced st ce cv) =
     sort_key name (entities st @
       nths ce {i. name (ce ! i) \<notin> name ` set (entities st) \<and> name (ce ! i) \<notin> name ` set (take i ce)}) \<and>
   events (merge_enhanced st ce cv) =
     sort_key_reverse timestamp (events st @
       nths cv {i. event_id (cv ! i) \<notin> event_id ` set (events st) \<and>
                   event_id (cv ! i) \<notin> event_id ` set (take i cv)}) \<and>
   (distinct (map name (entities st)) \<longrightarrow>
      distinct (map name (entities (merge_enhanced st ce cv)))) \<and>
   (distinct (map event_id (events st)) \<longrightarrow>
      distinct (map event_id (events (merge_enhanced st ce cv))))"
proof -
  have "distinct (map name (entities (merge_enhanced st ce cv)))"
    if "distinct (map name (entities st))"
    using add_unique_distinct[of name "entities st" "name ` set (entities st)" ce] that
    by (simp add: merge_enhanced_def Let_def distinct_map_sort_key)
  moreover have "distinct (map event_id (events (merge_enhanced st ce cv)))"
    if "distinct (map event_id (events st))"
    using add_unique_distinct[of event_id "events st" "event_id ` set (events st)" cv] that
    by (simp add: merge_enhanced_def Let_def distinct_map_sort_key_reverse)
  ultimately show ?thesis
    using merge_enhanced_entities merge_enhanced_events by blast
qed


theorem merge_enhanced_first_occurrence_witness:
  "distinct (map name (entities \<lparr>entities = [bert_stored], events = []\<rparr>)) \<and>
   distinct (map event_id (events \<lparr>entities = [bert_stored], events = []\<rparr>)) \<and>
   merge_enhanced \<lparr>entities = [bert_stored], events = []\<rparr>
       [gpt_first, gpt_second] [event_first, event_second]
     = \<lparr>entities = [bert_stored, gpt_first], events = [event_first]\<rparr> \<and>
   distinct (map name (entities (merge_enhanced \<lparr>entities = [bert_stored], events = []\<rparr>
       [gpt_first, gpt_second] [event_first, event_second]))) \<and>
   distinct (map event_id (events (merge_enhanced \<lparr>entities = [bert_stored], events = []\<rparr>
       [gpt_first, gpt_second] [event_first, event_second])))"
proof -
  have d: "distinct (map name (entities \<lparr>entities = [bert_stored], events = []\<rparr>))"
    "distinct (map event_id (events \<lparr>entities = [bert_stored], events = []\<rparr>))"
    by simp_all
  have m: "merge_enhanced \<lparr>entities = [bert_stored], events = []\<rparr>
       [gpt_first, gpt_second] [event_first, event_second]
     = \<lparr>entities = [bert_stored, gpt_first], events = [event_first]\<rparr>"
    by (simp add: merge_enhanced_def bert_stored_def gpt_first_def gpt_second_def
        event_first_def event_second_def lit_def sort_key_reverse_def)
  from d merge_enhanced_first_occurrence[of "\<lparr>entities = [bert_stored], events = []\<rparr>"
      "[gpt_first, gpt_second]" "[event_first, event_second]"]
  have "distinct (map name (entities (merge_enhanced \<lparr>entities = [bert_stored], events = []\<rparr>
       [gpt_first, gpt_second] [event_first, event_second])))"
    "distinct (map event_id (events (merge_enhanced \<lparr>entities = [bert_stored], events = []\<rparr>
       [gpt_first, gpt_second] [event_first, event_second])))"
    by blast+
  with d m show ?thesis by blast
qed

lemma merge_papers_distinct_candidates:
  assumes "distinct (map name (entities st))" and "distinct (map name ce)"
  shows "distinct (map name (entities (merge_papers st ce cv)))"
proof -
  have "distinct (map name (filter (\<lambda>e. name e \<notin> name ` set (entities st)) ce))"
    using assms(2) by (rule distinct_map_filter)
  with assms(1) have "distinct (map name (entities st @
      filter (\<lambda>e. name e \<notin> name ` set (entities st)) ce))"
    by (auto simp: image_iff)
  then show ?thesis
    by (simp add: merge_papers_def Let_def distinct_map_sort_key)
qed

lemma colliding_corpus_ids:
  "map event_id (events (merge_papers empty_store []
       (process_papers_events ascii_only colliding_corpus))) =
     [lit ''2024-category-milestone-cs-AI'', lit ''2024-category-milestone-cs-AI'']"
  by code_simp

text \<open>
  Claim C2. The merge of \<open>extract_papers.py\<close> tests a candidate against the keys of the
  existing store only. On the empty store, two candidate entities named \<open>GPT\<close> and two
  candidate events of one id are all appended: the output has two entities of one name and
  two events of one id. The script itself produces such candidates: on a corpus with fifty
  papers in the category \<open>cs.AI\<close> and fifty in \<open>cs-AI\<close> both milestone events get the id
  \<open>2024-category-milestone-cs-AI\<close>, and both are stored.
\<close>

theorem merge_papers_duplicate_keys:
  "merge_papers empty_store [gpt_first, gpt_second] [event_first, event_second]
     = \<lparr>entities = [gpt_first, gpt_second], events = [event_first, event_second]\<rparr> \<and>
   name gpt_first = name gpt_second \<and> gpt_first \<noteq> gpt_second \<and>
   event_id event_first = event_id event_second \<and> event_first \<noteq> event_second \<and>
   \<not> distinct (map name (entities
         (merge_papers empty_store [gpt_first, gpt_second] [event_first, event_second]))) \<and>
   \<not> distinct (map event_id (events
         (merge_papers empty_store [gpt_first, gpt_second] [event_first, event_second]))) \<and>
   \<not> distinct (map event_id (events (merge_papers empty_store []
         (process_papers_events ascii_only colliding_corpus))))"
proof -
  have "merge_papers empty_store [gpt_first, gpt_second] [event_first, event_second]
     = \<lparr>entities = [gpt_first, gpt_second], events = [event_first, event_second]\<rparr>"
    by (simp add: merge_papers_def empty_store_def gpt_first_def gpt_second_def
        event_first_def event_second_def lit_def sort_key_reverse_def)
  moreover have "name gpt_first = name gpt_second \<and> gpt_first \<noteq> gpt_second \<and>
      event_id event_first = event_id event_second \<and> event_first \<noteq> event_second"
    by (simp add: gpt_first_def gpt_second_def event_first_def event_second_def lit_def)
  moreover have "\<not> distinct (map event_id (events (merge_papers empty_store []
         (process_papers_events ascii_only colliding_corpus))))"
    by (simp add: colliding_corpus_ids)
  ultimately show ?thesis by simp
qed
section \<open>Year extraction\<close>

lemma match_abs_iff:
  "match_abs ext s = Some (g1, g2) \<longleftrightarrow>
     (\<exists>d1 d2 d3 d4 post. s = lit ''/abs/'' @ [d1, d2, d3, d4] @ post \<and>
        g1 = [d1, d2] \<and> g2 = [d3, d4] \<and>
        py_decimal ext d1 \<noteq> None \<and> py_decimal ext d2 \<noteq> None \<and>
        py_decimal ext d3 \<noteq> None \<and> py_decimal ext d4 \<noteq> None)"
proof
  assume m: "match_abs ext s = Some (g1, g2)"
  then have t: "take 5 s = lit ''/abs/''"
    by (auto simp: match_abs_def split: if_splits)
  from m t obtain d1 d2 d3 d4 post where d: "drop 5 s = d1 # d2 # d3 # d4 # post"
    by (auto simp: match_abs_def split: if_splits list.splits)
  have "s = take 5 s @ drop 5 s" by simp
  with t d have "s = lit ''/abs/'' @ [d1, d2, d3, d4] @ post" by simp
  moreover from m t d have "g1 = [d1, d2] \<and> g2 = [d3, d4] \<and>
        py_decimal ext d1 \<noteq> None \<and> py_decimal ext d2 \<noteq> None \<and>
        py_decimal ext d3 \<noteq> None \<and> py_decimal ext d4 \<noteq> None"
    by (auto simp: match_abs_def split: if_splits)
  ultimately show "\<exists>d1 d2 d3 d4 post. s = lit ''/abs/'' @ [d1, d2, d3, d4] @ post \<and>
        g1 = [d1, d2] \<and> g2 = [d3, d4] \<and>
        py_decimal ext d1 \<noteq> None \<and> py_decimal ext d2 \<noteq> None \<and>
        py_decimal ext d3 \<noteq> None \<and> py_decimal ext d4 \<noteq> None"
    by blast
next
  assume "\<exists>d1 d2 d3 d4 post. s = lit ''/abs/'' @ [d1, d2, d3, d4] @ post \<and>
        g1 = [d1, d2] \<and> g2 = [d3, d4] \<and>
        py_decimal ext d1 \<noteq> None \<and> py_decimal ext d2 \<noteq> None \<and>
        py_decimal ext d3 \<noteq> None \<and> py_decimal ext d4 \<noteq> None"
  then obtain d1 d2 d3 d4 post where s: "s = lit ''/abs/'' @ [d1, d2, d3, d4] @ post"
    and g: "g1 = [d1, d2]" "g2 = [d3, d4]"
    and d: "py_decimal ext d1 \<noteq> None" "py_decimal ext d2 \<noteq> None"
        "py_decimal ext d3 \<noteq> None" "py_decimal ext d4 \<noteq> None"
    by blast
  have l: "length (lit ''/abs/'') = 5" by (simp add: lit_def)
  from s l have "take 5 s = lit ''/abs/''" "drop 5 s = d1 # d2 # d3 # d4 # post"
    by simp_all
  with g d show "match_abs ext s = Some (g1, g2)"
    by (simp add: match_abs_def)
qed

lemma search_abs_None:
  "search_abs ext s = None \<longleftrightarrow> (\<forall>i. match_abs ext (drop i s) = None)"
proof (induction s)
  case Nil
  then show ?case by simp
next
  case (Cons c cs)
  show ?case
  proof (cases "match_abs ext (c # cs)")
    case None
    have "(\<forall>i. match_abs ext (drop i (c # cs)) = None) \<longleftrightarrow> (\<forall>i. match_abs ext (drop i cs) = None)"
    proof
      assume a: "\<forall>i. match_abs ext (drop i (c # cs)) = None"
      show "\<forall>i. match_abs ext (drop i cs) = None"
      proof
        fix i from a have "match_abs ext (drop (Suc i) (c # cs)) = None" by blast
        then show "match_abs ext (drop i cs) = None" by simp
      qed
    next
      assume a: "\<forall>i. match_abs ext (drop i cs) = None"
      show "\<forall>i. match_abs ext (drop i (c # cs)) = None"
      proof
        fix i show "match_abs ext (drop i (c # cs)) = None"
          using a None by (cases i) simp_all
      qed
    qed
    with None Cons.IH show ?thesis by simp
  next
    case (Some g)
    then have "\<not> (\<forall>i. match_abs ext (drop i (c # cs)) = None)"
      by (metis drop0 option.distinct(1))
    with Some show ?thesis by simp
  qed
qed

lemma search_abs_leftmost:
  "match_abs ext (drop i s) = Some g \<Longrightarrow> (\<forall>j<i. match_abs ext (drop j s) = None) \<Longrightarrow>
   search_abs ext s = Some g"
proof (induction s arbitrary: i)
  case Nil
  then show ?case by simp
next
  case (Cons c cs)
  show ?case
  proof (cases i)
    case 0
    with Cons.prems show ?thesis by simp
  next
    case (Suc k)
    with Cons.prems have h: "match_abs ext (c # cs) = None"
      by (metis drop0 zero_less_Suc)
    from Suc Cons.prems have "match_abs ext (drop k cs) = Some g" by simp
    moreover have "\<forall>j<k. match_abs ext (drop j cs) = None"
    proof (intro allI impI)
      fix j assume "j < k"
      with Suc have "Suc j < i" by simp
      with Cons.prems have "match_abs ext (drop (Suc j) (c # cs)) = None" by blast
      then show "match_abs ext (drop j cs) = None" by simp
    qed
    ultimately have "search_abs ext cs = Some g" by (rule Cons.IH)
    with h show ?thesis by simp
  qed
qed

lemma search_abs_SomeD:
  "search_abs ext s = Some g \<Longrightarrow> \<exists>i. match_abs ext (drop i s) = Some g"
proof (induction s)
  case Nil
  then show ?case by simp
next
  case (Cons c cs)
  show ?case
  proof (cases "match_abs ext (c # cs)")
    case None
    with Cons obtain i where "match_abs ext (drop i cs) = Some g" by auto
    then have "match_abs ext (drop (Suc i) (c # cs)) = Some g" by simp
    then show ?thesis by blast
  next
    case (Some a)
    with Cons.prems have "match_abs ext (drop 0 (c # cs)) = Some g" by simp
    then show ?thesis by blast
  qed
qed

lemma py_int_two_digits:
  "py_decimal ext d1 = Some v1 \<Longrightarrow> py_decimal ext d2 = Some v2 \<Longrightarrow>
   py_int ext [d1, d2] = Some (10 * v1 + v2)"
  by (simp add: py_int_def)

lemma search_abs_int:
  "search_abs ext s = Some (g1, g2) \<Longrightarrow> \<exists>n. py_int ext g1 = Some n"
proof -
  assume "search_abs ext s = Some (g1, g2)"
  then obtain i where "match_abs ext (drop i s) = Some (g1, g2)"
    using search_abs_SomeD by blast
  then obtain d1 d2 where "g1 = [d1, d2]" "py_decimal ext d1 \<noteq> None" "py_decimal ext d2 \<noteq> None"
    unfolding match_abs_iff by blast
  then show ?thesis by (auto simp: py_int_def)
qed

lemma extract_year_papers_eq:
  "extract_year_from_url_papers ext u = extract_year_from_url ext u"
  by (simp add: extract_year_from_url_papers_def extract_year_from_url_def
        split: option.splits prod.splits)

lemma extract_year_None_iff:
  "extract_year_from_url ext u = None \<longleftrightarrow>
     \<not> sublist (lit ''arxiv.org'') u \<or> search_abs ext u = None"
proof (cases "search_abs ext u")
  case None
  then show ?thesis by (simp add: extract_year_from_url_def)
next
  case (Some g)
  obtain g1 g2 where g: "g = (g1, g2)" by (cases g)
  with Some obtain n where "py_int ext g1 = Some n" using search_abs_int by blast
  with Some g show ?thesis by (simp add: extract_year_from_url_def)
qed



lemma extract_year_ge_2000:
  "extract_year_from_url ext u = Some y \<Longrightarrow> 2000 \<le> y"
  by (auto simp: extract_year_from_url_def split: if_splits option.splits prod.splits)

lemma no_match_search_None:
  assumes "\<not> (\<exists>pre d1 d2 d3 d4 post.
            u = pre @ lit ''/abs/'' @ [d1, d2, d3, d4] @ post \<and>
            py_decimal ext d1 \<noteq> None \<and> py_decimal ext d2 \<noteq> None \<and>
            py_decimal ext d3 \<noteq> None \<and> py_decimal ext d4 \<noteq> None)"
  shows "search_abs ext u = None"
proof -
  have "match_abs ext (drop i u) = None" for i
  proof (rule ccontr)
    assume "match_abs ext (drop i u) \<noteq> None"
    then obtain g1 g2 where "match_abs ext (drop i u) = Some (g1, g2)" by auto
    then obtain d1 d2 d3 d4 post where
      "drop i u = lit ''/abs/'' @ [d1, d2, d3, d4] @ post"
      "py_decimal ext d1 \<noteq> None" "py_decimal ext d2 \<noteq> None"
      "py_decimal ext d3 \<noteq> None" "py_decimal ext d4 \<noteq> None"
      unfolding match_abs_iff by blast
    moreover have "u = take i u @ drop i u" by simp
    ultimately have "\<exists>pre. u = pre @ lit ''/abs/'' @ [d1, d2, d3, d4] @ post \<and>
            py_decimal ext d1 \<noteq> None \<and> py_decimal ext d2 \<noteq> None \<and>
            py_decimal ext d3 \<noteq> None \<and> py_decimal ext d4 \<noteq> None"
      by metis
    with assms show False by blast
  qed
  then show ?thesis by (simp add: search_abs_None)
qed

lemma search_abs_first:
  assumes "search_abs ext u = Some (g1, g2)"
  shows "\<exists>pre d1 d2 d3 d4 post.
           u = pre @ lit ''/abs/'' @ [d1, d2, d3, d4] @ post \<and> g1 = [d1, d2] \<and> g2 = [d3, d4] \<and>
           py_decimal ext d1 \<noteq> None \<and> py_decimal ext d2 \<noteq> None \<and>
           py_decimal ext d3 \<noteq> None \<and> py_decimal ext d4 \<noteq> None \<and>
           (\<forall>j<length pre. match_abs ext (drop j u) = None)"
  using assms
proof (induction u)
  case Nil
  then show ?case by (simp add: match_abs_def lit_def)
next
  case (Cons c cs)
  show ?case
  proof (cases "match_abs ext (c # cs)")
    case None
    with Cons.prems have "search_abs ext cs = Some (g1, g2)" by simp
    from Cons.IH[OF this] obtain pre d1 d2 d3 d4 post where
      h: "cs = pre @ lit ''/abs/'' @ [d1, d2, d3, d4] @ post" "g1 = [d1, d2]" "g2 = [d3, d4]"
         "py_decimal ext d1 \<noteq> None" "py_decimal ext d2 \<noteq> None"
         "py_decimal ext d3 \<noteq> None" "py_decimal ext d4 \<noteq> None"
         "\<forall>j<length pre. match_abs ext (drop j cs) = None"
      by blast
    have "\<forall>j<length (c # pre). match_abs ext (drop j (c # cs)) = None"
    proof (intro allI impI)
      fix j assume "j < length (c # pre)"
      then show "match_abs ext (drop j (c # cs)) = None"
        using None h(8) by (cases j) simp_all
    qed
    moreover from h(1) have "c # cs = (c # pre) @ lit ''/abs/'' @ [d1, d2, d3, d4] @ post"
      by simp
    ultimately show ?thesis using h(2-7) by blast
  next
    case (Some g)
    with Cons.prems have "match_abs ext (c # cs) = Some (g1, g2)" by simp
    then obtain d1 d2 d3 d4 post where
      "c # cs = [] @ lit ''/abs/'' @ [d1, d2, d3, d4] @ post" "g1 = [d1, d2]" "g2 = [d3, d4]"
      "py_decimal ext d1 \<noteq> None" "py_decimal ext d2 \<noteq> None"
      "py_decimal ext d3 \<noteq> None" "py_decimal ext d4 \<noteq> None"
      unfolding match_abs_iff by auto
    moreover have "\<forall>j<length ([]::nat list). match_abs ext (drop j (c # cs)) = None" by simp
    ultimately show ?thesis by blast
  qed
qed

lemma leftmost_declarative:
  assumes "\<forall>j<length pre. match_abs ext (drop j u) = None"
    and "u = pre' @ lit ''/abs/'' @ [e1, e2, e3, e4] @ post'"
    and "py_decimal ext e1 \<noteq> None" "py_decimal ext e2 \<noteq> None"
        "py_decimal ext e3 \<noteq> None" "py_decimal ext e4 \<noteq> None"
  shows "length pre \<le> length pre'"
proof (rule ccontr)
  assume "\<not> length pre \<le> length pre'"
  then have "length pre' < length pre" by simp
  with assms(1) have "match_abs ext (drop (length pre') u) = None" by blast
  moreover from assms(2) have "drop (length pre') u = lit ''/abs/'' @ [e1, e2, e3, e4] @ post'"
    by simp
  then have "match_abs ext (drop (length pre') u) = Some ([e1, e2], [e3, e4])"
    using assms(3-6) unfolding match_abs_iff by blast
  ultimately show False by simp
qed

lemma paper_step_no_year:
  "extract_year_from_url ext (url p) = None \<Longrightarrow>
   loop_events (paper_step ext lower s p) = loop_events s \<and>
   yearly_stats (paper_step ext lower s p) = yearly_stats s"
  by (simp add: paper_step_def Let_def)

lemma published_step_no_year:
  "extract_year_from_url_papers ext (url p) = None \<Longrightarrow> published_step ext evs p = evs"
  by (simp add: published_step_def)

text \<open>
  Claim C5. If the url contains \<open>arxiv.org\<close> and contains \<open>/abs/\<close> followed by four
  decimal digits, the result is 2000 plus the number that the first two of those digits
  form, for the leftmost such place; otherwise the result is \<open>None\<close>. The function of
  \<open>extract_papers.py\<close> returns the same. A paper whose year is \<open>None\<close> adds no publication
  event and no year count.
\<close>

theorem extract_year_rule:
  "(sublist (lit ''arxiv.org'') u \<and>
    (\<exists>pre d1 d2 d3 d4 post.
        u = pre @ lit ''/abs/'' @ [d1, d2, d3, d4] @ post \<and>
        py_decimal ext d1 \<noteq> None \<and> py_decimal ext d2 \<noteq> None \<and>
        py_decimal ext d3 \<noteq> None \<and> py_decimal ext d4 \<noteq> None)
    \<longrightarrow>
    (\<exists>pre d1 d2 d3 d4 post v1 v2.
        u = pre @ lit ''/abs/'' @ [d1, d2, d3, d4] @ post \<and>
        py_decimal ext d1 = Some v1 \<and> py_decimal ext d2 = Some v2 \<and>
        py_decimal ext d3 \<noteq> None \<and> py_decimal ext d4 \<noteq> None \<and>
        (\<forall>pre' e1 e2 e3 e4 post'.
            u = pre' @ lit ''/abs/'' @ [e1, e2, e3, e4] @ post' \<and>
            py_decimal ext e1 \<noteq> None \<and> py_decimal ext e2 \<noteq> None \<and>
            py_decimal ext e3 \<noteq> None \<and> py_decimal ext e4 \<noteq> None
            \<longrightarrow> length pre \<le> length pre') \<and>
        extract_year_from_url ext u = Some (2000 + (10 * v1 + v2)))) \<and>
   (\<not> (sublist (lit ''arxiv.org'') u \<and>
       (\<exists>pre d1 d2 d3 d4 post.
          u = pre @ lit ''/abs/'' @ [d1, d2, d3, d4] @ post \<and>
          py_decimal ext d1 \<noteq> None \<and> py_decimal ext d2 \<noteq> None \<and>
          py_decimal ext d3 \<noteq> None \<and> py_decimal ext d4 \<noteq> None))
    \<longrightarrow> extract_year_from_url ext u = None) \<and>
   extract_year_from_url_papers ext u = extract_year_from_url ext u \<and>
   (extract_year_from_url ext (url p) = None \<longrightarrow>
      loop_events (paper_step ext lower s p) = loop_events s \<and>
      yearly_stats (paper_step ext lower s p) = yearly_stats s) \<and>
   (extract_year_from_url_papers ext (url p) = None \<longrightarrow> published_step ext evs p = evs)"
proof (intro conjI impI)
  assume a: "sublist (lit ''arxiv.org'') u \<and>
    (\<exists>pre d1 d2 d3 d4 post.
        u = pre @ lit ''/abs/'' @ [d1, d2, d3, d4] @ post \<and>
        py_decimal ext d1 \<noteq> None \<and> py_decimal ext d2 \<noteq> None \<and>
        py_decimal ext d3 \<noteq> None \<and> py_decimal ext d4 \<noteq> None)"
  then obtain pre0 c1 c2 c3 c4 post0 where
    m: "u = pre0 @ lit ''/abs/'' @ [c1, c2, c3, c4] @ post0"
       "py_decimal ext c1 \<noteq> None" "py_decimal ext c2 \<noteq> None"
       "py_decimal ext c3 \<noteq> None" "py_decimal ext c4 \<noteq> None"
    by blast
  from m(1) have "drop (length pre0) u = lit ''/abs/'' @ [c1, c2, c3, c4] @ post0"
    by simp
  then have "match_abs ext (drop (length pre0) u) = Some ([c1, c2], [c3, c4])"
    using m(2-5) unfolding match_abs_iff by blast
  then have "search_abs ext u \<noteq> None"
    unfolding search_abs_None by (metis option.distinct(1))
  then obtain g1 g2 where s: "search_abs ext u = Some (g1, g2)" by auto
  from search_abs_first[OF s] obtain pre d1 d2 d3 d4 post where
    h: "u = pre @ lit ''/abs/'' @ [d1, d2, d3, d4] @ post" "g1 = [d1, d2]"
       "py_decimal ext d1 \<noteq> None" "py_decimal ext d2 \<noteq> None"
       "py_decimal ext d3 \<noteq> None" "py_decimal ext d4 \<noteq> None"
       "\<forall>j<length pre. match_abs ext (drop j u) = None"
    by blast
  from h(3,4) obtain v1 v2 where v: "py_decimal ext d1 = Some v1" "py_decimal ext d2 = Some v2"
    by auto
  have "extract_year_from_url ext u = Some (2000 + (10 * v1 + v2))"
    using a s h(2) py_int_two_digits[OF v] by (simp add: extract_year_from_url_def)
  moreover have "\<forall>pre' e1 e2 e3 e4 post'.
            u = pre' @ lit ''/abs/'' @ [e1, e2, e3, e4] @ post' \<and>
            py_decimal ext e1 \<noteq> None \<and> py_decimal ext e2 \<noteq> None \<and>
            py_decimal ext e3 \<noteq> None \<and> py_decimal ext e4 \<noteq> None
            \<longrightarrow> length pre \<le> length pre'"
    using leftmost_declarative[OF h(7)] by blast
  ultimately show "\<exists>pre d1 d2 d3 d4 post v1 v2.
        u = pre @ lit ''/abs/'' @ [d1, d2, d3, d4] @ post \<and>
        py_decimal ext d1 = Some v1 \<and> py_decimal ext d2 = Some v2 \<and>
        py_decimal ext d3 \<noteq> None \<and> py_decimal ext d4 \<noteq> None \<and>
        (\<forall>pre' e1 e2 e3 e4 post'.
            u = pre' @ lit ''/abs/'' @ [e1, e2, e3, e4] @ post' \<and>
            py_decimal ext e1 \<noteq> None \<and> py_decimal ext e2 \<noteq> None \<and>
            py_decimal ext e3 \<noteq> None \<and> py_decimal ext e4 \<noteq> None
            \<longrightarrow> length pre \<le> length pre') \<and>
        extract_year_from_url ext u = Some (2000 + (10 * v1 + v2))"
    using h(1,5,6) v by blast
next
  assume n: "\<not> (sublist (lit ''arxiv.org'') u \<and>
       (\<exists>pre d1 d2 d3 d4 post.
          u = pre @ lit ''/abs/'' @ [d1, d2, d3, d4] @ post \<and>
          py_decimal ext d1 \<noteq> None \<and> py_decimal ext d2 \<noteq> None \<and>
          py_decimal ext d3 \<noteq> None \<and> py_decimal ext d4 \<noteq> None))"
  have "\<not> sublist (lit ''arxiv.org'') u \<or> search_abs ext u = None"
  proof (cases "sublist (lit ''arxiv.org'') u")
    case True
    with n have "\<not> (\<exists>pre d1 d2 d3 d4 post.
          u = pre @ lit ''/abs/'' @ [d1, d2, d3, d4] @ post \<and>
          py_decimal ext d1 \<noteq> None \<and> py_decimal ext d2 \<noteq> None \<and>
          py_decimal ext d3 \<noteq> None \<and> py_decimal ext d4 \<noteq> None)"
      by simp
    then have "search_abs ext u = None" by (rule no_match_search_None)
    then show ?thesis by simp
  next
    case False
    then show ?thesis by simp
  qed
  then show "extract_year_from_url ext u = None"
    by (simp add: extract_year_None_iff)
next
  show "extract_year_from_url_papers ext u = extract_year_from_url ext u"
    by (rule extract_year_papers_eq)
next
  assume "extract_year_from_url ext (url p) = None"
  then show "loop_events (paper_step ext lower s p) = loop_events s"
    by (simp add: paper_step_no_year)
next
  assume "extract_year_from_url ext (url p) = None"
  then show "yearly_stats (paper_step ext lower s p) = yearly_stats s"
    by (simp add: paper_step_no_year)
next
  assume "extract_year_from_url_papers ext (url p) = None"
  then show "published_step ext evs p = evs"
    by (rule published_step_no_year)
qed

theorem extract_year_rule_witness:
  "sublist (lit ''arxiv.org'') (lit ''https://arxiv.org/abs/2502.19614'') \<and>
   extract_year_from_url ascii_only (lit ''https://arxiv.org/abs/2502.19614'') \<noteq> None \<and>
   extract_year_from_url ascii_only (lit ''https://example.org/abs/2502.19614'') = None"
proof -
  have h1: "sublist (lit ''arxiv.org'') (lit ''https://arxiv.org/abs/2502.19614'')"
    by code_simp
  have "lit ''https://arxiv.org/abs/2502.19614'' =
          lit ''https://arxiv.org'' @ lit ''/abs/'' @ [50, 53, 48, 50] @ lit ''.19614''"
    by (simp add: lit_def)
  moreover have "py_decimal ascii_only 50 \<noteq> None" "py_decimal ascii_only 53 \<noteq> None"
    "py_decimal ascii_only 48 \<noteq> None"
    by (simp_all add: py_decimal_def)
  ultimately have h2: "\<exists>pre d1 d2 d3 d4 post.
        lit ''https://arxiv.org/abs/2502.19614'' = pre @ lit ''/abs/'' @ [d1, d2, d3, d4] @ post \<and>
        py_decimal ascii_only d1 \<noteq> None \<and> py_decimal ascii_only d2 \<noteq> None \<and>
        py_decimal ascii_only d3 \<noteq> None \<and> py_decimal ascii_only d4 \<noteq> None"
    by blast
  have h3: "\<not> sublist (lit ''arxiv.org'') (lit ''https://example.org/abs/2502.19614'')"
    by code_simp
  have "\<exists>pre d1 d2 d3 d4 post v1 v2.
        lit ''https://arxiv.org/abs/2502.19614'' = pre @ lit ''/abs/'' @ [d1, d2, d3, d4] @ post \<and>
        py_decimal ascii_only d1 = Some v1 \<and> py_decimal ascii_only d2 = Some v2 \<and>
        py_decimal ascii_only d3 \<noteq> None \<and> py_decimal ascii_only d4 \<noteq> None \<and>
        (\<forall>pre' e1 e2 e3 e4 post'.
            lit ''https://arxiv.org/abs/2502.19614'' = pre' @ lit ''/abs/'' @ [e1, e2, e3, e4] @ post' \<and>
            py_decimal ascii_only e1 \<noteq> None \<and> py_decimal ascii_only e2 \<noteq> None \<and>
            py_decimal ascii_only e3 \<noteq> None \<and> py_decimal ascii_only e4 \<noteq> None
            \<longrightarrow> length pre \<le> length pre') \<and>
        extract_year_from_url ascii_only (lit ''https://arxiv.org/abs/2502.19614'')
          = Some (2000 + (10 * v1 + v2))"
    by (rule extract_year_rule[THEN conjunct1, THEN mp, OF conjI[OF h1 h2]])
  then have "extract_year_from_url ascii_only (lit ''https://arxiv.org/abs/2502.19614'') \<noteq> None"
    by (elim exE conjE) simp
  moreover have "extract_year_from_url ascii_only (lit ''https://example.org/abs/2502.19614'') = None"
    using extract_year_rule[THEN conjunct2, THEN conjunct1, THEN mp,
        of "lit ''https://example.org/abs/2502.19614''" ascii_only] h3
    by simp
  ultimately show ?thesis using h1 by blast
qed

section \<open>Examples of the year extraction; publication events\<close>


text \<open>
  Claim C6, as stated, fails on its first example: the url
  \<open>https://arxiv.org/abs/2502.19614\<close> does not give the year 2024.
\<close>

theorem extract_year_2502_is_not_2024:
  "extract_year_from_url ascii_only (lit ''https://arxiv.org/abs/2502.19614'') \<noteq> Some 2024"
  by code_simp

text \<open>
  Claim C6, amended. The url \<open>https://arxiv.org/abs/2502.19614\<close> gives 2025, the url
  \<open>https://arxiv.org/abs/1912.12345\<close> gives 2019, and a url that does not contain
  \<open>arxiv.org\<close> gives \<open>None\<close>; the functions of both scripts agree.
\<close>

theorem extract_year_examples:
  "extract_year_from_url ext (lit ''https://arxiv.org/abs/2502.19614'') = Some 2025 \<and>
   extract_year_from_url ext (lit ''https://arxiv.org/abs/1912.12345'') = Some 2019 \<and>
   extract_year_from_url_papers ext (lit ''https://arxiv.org/abs/2502.19614'') = Some 2025 \<and>
   extract_year_from_url_papers ext (lit ''https://arxiv.org/abs/1912.12345'') = Some 2019 \<and>
   (\<not> sublist (lit ''arxiv.org'') u \<longrightarrow>
      extract_year_from_url ext u = None \<and> extract_year_from_url_papers ext u = None)"
proof -
  have "extract_year_from_url ext (lit ''https://arxiv.org/abs/2502.19614'') = Some 2025"
    by (simp add: extract_year_from_url_def lit_def sublist_code match_abs_def py_int_def
        py_decimal_def)
  moreover have "extract_year_from_url ext (lit ''https://arxiv.org/abs/1912.12345'') = Some 2019"
    by (simp add: extract_year_from_url_def lit_def sublist_code match_abs_def py_int_def
        py_decimal_def)
  moreover have "\<not> sublist (lit ''arxiv.org'') u \<longrightarrow> extract_year_from_url ext u = None"
    by (simp add: extract_year_from_url_def)
  ultimately show ?thesis by (simp add: extract_year_papers_eq)
qed

theorem extract_year_examples_witness:
  "\<not> sublist (lit ''arxiv.org'') (lit ''https://example.org/abs/2502.19614'') \<and>
   extract_year_from_url ascii_only (lit ''https://example.org/abs/2502.19614'') = None \<and>
   extract_year_from_url ascii_only (lit ''https://arxiv.org/abs/2502.19614'') = Some 2025"
proof -
  have h: "\<not> sublist (lit ''arxiv.org'') (lit ''https://example.org/abs/2502.19614'')"
    by code_simp
  with extract_year_examples[of ascii_only "lit ''https://example.org/abs/2502.19614''"]
  show ?thesis by blast
qed

lemma paper_step_events:
  "loop_events (paper_step ext lower s p) =
     loop_events s @
       (case extract_year_from_url ext (url p) of
          None \<Rightarrow> []
        | Some y \<Rightarrow>
            if title p \<noteq> []
            then [publication_event y p (categorize_paper lower (title p) (abstract p) (categories p))]
            else [])"
proof (cases "extract_year_from_url ext (url p)")
  case None
  then show ?thesis by (simp add: paper_step_def Let_def)
next
  case (Some y)
  then have "y \<noteq> 0" using extract_year_ge_2000[of ext "url p" y] by simp
  with Some show ?thesis by (simp add: paper_step_def Let_def)
qed

lemma foldl_paper_step_events:
  "loop_events (foldl (paper_step ext lower) s papers) =
     loop_events s @
       map (\<lambda>p. publication_event (the (extract_year_from_url ext (url p))) p
                  (categorize_paper lower (title p) (abstract p) (categories p)))
         (filter (\<lambda>p. title p \<noteq> [] \<and> extract_year_from_url ext (url p) \<noteq> None) papers)"
proof (induction papers arbitrary: s)
  case Nil
  then show ?case by simp
next
  case (Cons p ps)
  show ?case
    by (cases "extract_year_from_url ext (url p)") (simp_all add: Cons.IH paper_step_events)
qed

text \<open>
  Claim C9. An iteration of the loop of \<open>enhanced_extraction\<close> on a paper with a
  non-empty title and a year \<open>y\<close> appends exactly one event, whose id is the year, a
  hyphen and the first eight characters of \<open>str(paper_id)\<close>, and whose timestamp is the
  year followed by \<open>-01-01T00:00:00Z\<close>; on a paper with an empty title or without a year it
  appends nothing. Over the whole corpus the loop emits one event for each such paper, in
  the order of the papers, and these events are the first ones of the list that
  \<open>enhanced_extraction\<close> returns.
\<close>

theorem publication_event_contract:
  "(title p \<noteq> [] \<and> extract_year_from_url ext (url p) = Some y \<longrightarrow>
      (\<exists>e. loop_events (paper_step ext lower s p) = loop_events s @ [e] \<and>
           event_id e = str_nat y @ lit ''-'' @ take 8 (str_id (paper_id p)) \<and>
           timestamp e = str_nat y @ lit ''-01-01T00:00:00Z'')) \<and>
   (title p = [] \<or> extract_year_from_url ext (url p) = None \<longrightarrow>
      loop_events (paper_step ext lower s p) = loop_events s) \<and>
   loop_events (paper_loop ext lower papers) =
     map (\<lambda>p. publication_event (the (extract_year_from_url ext (url p))) p
                (categorize_paper lower (title p) (abstract p) (categories p)))
       (filter (\<lambda>p. title p \<noteq> [] \<and> extract_year_from_url ext (url p) \<noteq> None) papers) \<and>
   length (loop_events (paper_loop ext lower papers)) =
     length (filter (\<lambda>p. title p \<noteq> [] \<and> extract_year_from_url ext (url p) \<noteq> None) papers) \<and>
   prefix (loop_events (paper_loop ext lower papers)) (enhanced_extraction_events ext lower papers)"
proof (intro conjI impI)
  assume "title p \<noteq> [] \<and> extract_year_from_url ext (url p) = Some y"
  then show "\<exists>e. loop_events (paper_step ext lower s p) = loop_events s @ [e] \<and>
           event_id e = str_nat y @ lit ''-'' @ take 8 (str_id (paper_id p)) \<and>
           timestamp e = str_nat y @ lit ''-01-01T00:00:00Z''"
    by (simp add: paper_step_events publication_event_def)
next
  assume "title p = [] \<or> extract_year_from_url ext (url p) = None"
  then show "loop_events (paper_step ext lower s p) = loop_events s"
    by (auto simp: paper_step_events split: option.splits)
next
  show "loop_events (paper_loop ext lower papers) =
     map (\<lambda>p. publication_event (the (extract_year_from_url ext (url p))) p
                (categorize_paper lower (title p) (abstract p) (categories p)))
       (filter (\<lambda>p. title p \<noteq> [] \<and> extract_year_from_url ext (url p) \<noteq> None) papers)"
    by (simp add: paper_loop_def foldl_paper_step_events empty_tally_def)
  then show "length (loop_events (paper_loop ext lower papers)) =
     length (filter (\<lambda>p. title p \<noteq> [] \<and> extract_year_from_url ext (url p) \<noteq> None) papers)"
    by simp
next
  show "prefix (loop_events (paper_loop ext lower papers))
          (enhanced_extraction_events ext lower papers)"
    by (simp add: enhanced_extraction_events_def Let_def)
qed

lemma sample_year: "extract_year_from_url ascii_only (url sample_paper) = Some 2025"
  by (simp add: sample_paper_def extract_year_from_url_def lit_def sublist_code match_abs_def
      py_int_def py_decimal_def)

theorem publication_event_contract_witness:
  "title sample_paper \<noteq> [] \<and>
   extract_year_from_url ascii_only (url sample_paper) = Some 2025 \<and>
   (\<exists>e. loop_events (paper_step ascii_only ascii_lower empty_tally sample_paper) = [e] \<and>
        event_id e = lit ''2025-0a1b2c3d'' \<and>
        timestamp e = lit ''2025-01-01T00:00:00Z'') \<and>
   (title (sample_paper\<lparr>title := []\<rparr>) = [] \<or>
      extract_year_from_url ascii_only (url (sample_paper\<lparr>title := []\<rparr>)) = None) \<and>
   loop_events (paper_step ascii_only ascii_lower empty_tally (sample_paper\<lparr>title := []\<rparr>)) = []"
proof -
  have t: "title sample_paper \<noteq> []" by (simp add: sample_paper_def lit_def)
  have i: "str_nat 2025 @ lit ''-'' @ take 8 (str_id (paper_id sample_paper)) = lit ''2025-0a1b2c3d''"
    by code_simp
  have ts: "str_nat 2025 @ lit ''-01-01T00:00:00Z'' = lit ''2025-01-01T00:00:00Z''"
    by code_simp
  have e: "loop_events empty_tally = []" by (simp add: empty_tally_def)
  from publication_event_contract[of sample_paper ascii_only 2025 ascii_lower empty_tally] t sample_year
  have "\<exists>e. loop_events (paper_step ascii_only ascii_lower empty_tally sample_paper)
              = loop_events empty_tally @ [e] \<and>
           event_id e = str_nat 2025 @ lit ''-'' @ take 8 (str_id (paper_id sample_paper)) \<and>
           timestamp e = str_nat 2025 @ lit ''-01-01T00:00:00Z''"
    by blast
  then have a: "\<exists>e. loop_events (paper_step ascii_only ascii_lower empty_tally sample_paper) = [e] \<and>
        event_id e = lit ''2025-0a1b2c3d'' \<and> timestamp e = lit ''2025-01-01T00:00:00Z''"
    by (simp only: i ts e append_Nil)
  have n: "title (sample_paper\<lparr>title := []\<rparr>) = []" by simp
  from publication_event_contract[of "sample_paper\<lparr>title := []\<rparr>" ascii_only 2025 ascii_lower empty_tally] n
  have "loop_events (paper_step ascii_only ascii_lower empty_tally (sample_paper\<lparr>title := []\<rparr>))
          = loop_events empty_tally"
    by blast
  with t sample_year a n e show ?thesis by simp
qed

section \<open>The parenthesized-acronym pass\<close>


lemma paren_not_tail: "\<not> is_acronym_tail 40" "\<not> is_acronym_tail 41"
  by (simp_all add: is_acronym_tail_def)

lemma upper_is_tail: "is_upper c \<Longrightarrow> is_acronym_tail c"
  by (simp add: is_upper_def is_acronym_tail_def)

lemma takeWhile_run:
  "\<forall>c\<in>set xs. P c \<Longrightarrow> \<not> P y \<Longrightarrow> takeWhile P (xs @ y # ys) = xs"
  by (induction xs) auto

lemma dropWhile_run:
  "\<forall>c\<in>set xs. P c \<Longrightarrow> \<not> P y \<Longrightarrow> dropWhile P (xs @ y # ys) = y # ys"
  by (induction xs) auto

lemma match_acronym_iff:
  "match_acronym s = Some tok \<longleftrightarrow>
     (\<exists>u w post. s = [40] @ u @ w @ [41] @ post \<and> tok = u @ w \<and> 2 \<le> length u \<and>
        list_all is_upper u \<and> list_all is_acronym_tail w)"
proof
  assume m: "match_acronym s = Some tok"
  then obtain rest where s: "s = 40 # rest"
    by (auto simp: match_acronym_def split: list.splits if_splits)
  from m s have tok: "tok = takeWhile is_acronym_tail rest"
    and up: "2 \<le> length (takeWhile is_upper tok)"
    and af: "take 1 (dropWhile is_acronym_tail rest) = [41]"
    by (auto simp: match_acronym_def Let_def split: if_splits)
  from af obtain post where d: "dropWhile is_acronym_tail rest = 41 # post"
    by (cases "dropWhile is_acronym_tail rest") auto
  have "rest = takeWhile is_acronym_tail rest @ dropWhile is_acronym_tail rest" by simp
  with tok d have r: "rest = tok @ 41 # post" by simp
  let ?u = "takeWhile is_upper tok" and ?w = "dropWhile is_upper tok"
  have "list_all is_upper ?u"
    by (auto simp: list_all_iff dest: set_takeWhileD)
  moreover have "list_all is_acronym_tail ?w"
  proof -
    have "set ?w \<subseteq> set tok" by (rule set_dropWhileD[THEN subsetI]) simp
    moreover have "\<forall>c\<in>set tok. is_acronym_tail c"
      unfolding tok by (auto dest: set_takeWhileD)
    ultimately show ?thesis by (auto simp: list_all_iff)
  qed
  moreover have "tok = ?u @ ?w" by simp
  moreover from s r have "s = [40] @ ?u @ ?w @ [41] @ post" by simp
  ultimately show "\<exists>u w post. s = [40] @ u @ w @ [41] @ post \<and> tok = u @ w \<and> 2 \<le> length u \<and>
        list_all is_upper u \<and> list_all is_acronym_tail w"
    using up by blast
next
  assume "\<exists>u w post. s = [40] @ u @ w @ [41] @ post \<and> tok = u @ w \<and> 2 \<le> length u \<and>
        list_all is_upper u \<and> list_all is_acronym_tail w"
  then obtain u w post where s: "s = 40 # (u @ w) @ 41 # post" and tok: "tok = u @ w"
    and len: "2 \<le> length u" and u: "list_all is_upper u" and w: "list_all is_acronym_tail w"
    by auto
  from u w have all: "\<forall>c\<in>set (u @ w). is_acronym_tail c"
    by (auto simp: list_all_iff upper_is_tail)
  have t: "takeWhile is_acronym_tail ((u @ w) @ 41 # post) = u @ w"
    using all paren_not_tail(2) by (rule takeWhile_run)
  have d: "dropWhile is_acronym_tail ((u @ w) @ 41 # post) = 41 # post"
    using all paren_not_tail(2) by (rule dropWhile_run)
  have "takeWhile is_upper (u @ w) = u @ takeWhile is_upper w"
    using u by (simp add: takeWhile_append2 list_all_iff)
  with len have "2 \<le> length (takeWhile is_upper (u @ w))" by simp
  with s tok t d show "match_acronym s = Some tok"
    by (simp add: match_acronym_def Let_def del: append_assoc)
qed

lemma match_acronym_head:
  "match_acronym s = Some tok \<Longrightarrow> s \<noteq> [] \<and> hd s = 40"
  by (auto simp: match_acronym_def split: list.splits if_splits)

lemma findall_acronym_sound:
  "m \<in> set (findall_acronym t) \<Longrightarrow> \<exists>i. match_acronym (drop i t) = Some m"
proof (induction t rule: findall_acronym.induct)
  case 1
  then show ?case by simp
next
  case (2 c cs)
  show ?case
  proof (cases "match_acronym (c # cs)")
    case None
    with "2.prems" have "m \<in> set (findall_acronym cs)" by simp
    with "2.IH"(1)[OF None] obtain i where "match_acronym (drop i cs) = Some m" by blast
    then have "match_acronym (drop (Suc i) (c # cs)) = Some m" by simp
    then show ?thesis by blast
  next
    case (Some tok)
    with "2.prems" have "m = tok \<or> m \<in> set (findall_acronym (drop (length tok + 1) cs))"
      by simp
    then show ?thesis
    proof
      assume "m = tok"
      with Some have "match_acronym (drop 0 (c # cs)) = Some m" by simp
      then show ?thesis by blast
    next
      assume "m \<in> set (findall_acronym (drop (length tok + 1) cs))"
      with "2.IH"(2)[OF Some] obtain i
        where "match_acronym (drop i (drop (length tok + 1) cs)) = Some m" by blast
      then have "match_acronym (drop (Suc (i + (length tok + 1))) (c # cs)) = Some m"
        by (simp add: add.commute)
      then show ?thesis by blast
    qed
  qed
qed

lemma findall_acronym_complete:
  "match_acronym (drop i t) = Some m \<Longrightarrow> m \<in> set (findall_acronym t)"
proof (induction t arbitrary: i rule: findall_acronym.induct)
  case 1
  then show ?case by (simp add: match_acronym_def)
next
  case (2 c cs)
  show ?case
  proof (cases i)
    case 0
    with "2.prems" show ?thesis by simp
  next
    case (Suc k)
    with "2.prems" have k: "match_acronym (drop k cs) = Some m" by simp
    show ?thesis
    proof (cases "match_acronym (c # cs)")
      case None
      with "2.IH"(1)[OF None k] show ?thesis by simp
    next
      case (Some tok)
      then obtain u w post where "cs = (u @ w) @ 41 # post" and "tok = u @ w"
        and "list_all is_upper u" and "list_all is_acronym_tail w"
        unfolding match_acronym_iff by auto
      then have cs: "cs = tok @ 41 # post" and all: "\<forall>c\<in>set tok. is_acronym_tail c"
        by (auto simp: list_all_iff upper_is_tail)
      have ge: "length tok + 1 \<le> k"
      proof (rule ccontr)
        assume "\<not> length tok + 1 \<le> k"
        then have lt: "k < length tok + 1" by simp
        from match_acronym_head[OF k] have ne: "drop k cs \<noteq> []" and h: "hd (drop k cs) = 40"
          by simp_all
        from ne have "k < length cs" by simp
        with h have n40: "cs ! k = 40" by (simp add: hd_drop_conv_nth)
        show False
        proof (cases "k < length tok")
          case True
          then have "cs ! k = tok ! k" unfolding cs by (simp add: nth_append)
          moreover from True have "tok ! k \<in> set tok" by simp
          ultimately show False using all n40 paren_not_tail(1) by metis
        next
          case False
          with lt have "k = length tok" by simp
          then have "cs ! k = 41" unfolding cs by simp
          with n40 show False by simp
        qed
      qed
      then have "drop k cs = drop (k - (length tok + 1)) (drop (length tok + 1) cs)"
        by simp
      with k have "match_acronym (drop (k - (length tok + 1)) (drop (length tok + 1) cs)) = Some m"
        by simp
      from "2.IH"(2)[OF Some this] Some show ?thesis by simp
    qed
  qed
qed

lemma findall_acronym_iff:
  "m \<in> set (findall_acronym t) \<longleftrightarrow> (\<exists>i. match_acronym (drop i t) = Some m)"
  using findall_acronym_sound findall_acronym_complete by blast

text \<open>
  Claim C8, as stated, fails: in the text \<open>(ABc)\<close> the pass proposes the token \<open>ABc\<close>,
  which has a lower-case letter, so it is not an all-caps token extended with hyphens or
  digits only.
\<close>

theorem acronym_pass_lowercase_tail:
  "lit ''ABc'' \<in> set (acronym_pass (lit ''(ABc)'')) \<and>
   \<not> list_all spec_acronym_char (lit ''ABc'')"
  by (simp add: acronym_pass_def match_acronym_def lit_def is_acronym_tail_def is_upper_def
      spec_acronym_char_def)

text \<open>
  Claim C8, amended. A token is proposed by the pass if and only if the text contains it
  between an opening and a closing parenthesis, it starts with two or more upper-case ASCII
  letters, the rest of it consists of ASCII letters of either case, digits and hyphens, and
  its length is strictly between 2 and 15.
\<close>

theorem acronym_pass_iff:
  "m \<in> set (acronym_pass t) \<longleftrightarrow>
     (\<exists>pre u w post.
        t = pre @ [40] @ u @ w @ [41] @ post \<and> m = u @ w \<and>
        2 \<le> length u \<and> list_all is_upper u \<and> list_all is_acronym_tail w \<and>
        2 < length m \<and> length m < 15)"
proof
  assume "m \<in> set (acronym_pass t)"
  then have f: "m \<in> set (findall_acronym t)" and l: "2 < length m" "length m < 15"
    by (simp_all add: acronym_pass_def)
  from f obtain i where "match_acronym (drop i t) = Some m"
    unfolding findall_acronym_iff by blast
  then obtain u w post where "drop i t = [40] @ u @ w @ [41] @ post" "m = u @ w"
    "2 \<le> length u" "list_all is_upper u" "list_all is_acronym_tail w"
    unfolding match_acronym_iff by blast
  moreover have "t = take i t @ drop i t" by simp
  ultimately have "t = take i t @ [40] @ u @ w @ [41] @ post \<and> m = u @ w \<and>
        2 \<le> length u \<and> list_all is_upper u \<and> list_all is_acronym_tail w"
    by simp
  with l show "\<exists>pre u w post.
        t = pre @ [40] @ u @ w @ [41] @ post \<and> m = u @ w \<and>
        2 \<le> length u \<and> list_all is_upper u \<and> list_all is_acronym_tail w \<and>
        2 < length m \<and> length m < 15"
    by blast
next
  assume "\<exists>pre u w post.
        t = pre @ [40] @ u @ w @ [41] @ post \<and> m = u @ w \<and>
        2 \<le> length u \<and> list_all is_upper u \<and> list_all is_acronym_tail w \<and>
        2 < length m \<and> length m < 15"
  then obtain pre u w post where t: "t = pre @ [40] @ u @ w @ [41] @ post"
    and r: "m = u @ w" "2 \<le> length u" "list_all is_upper u" "list_all is_acronym_tail w"
    and l: "2 < length m" "length m < 15"
    by blast
  from t have "drop (length pre) t = [40] @ u @ w @ [41] @ post" by simp
  with r have "match_acronym (drop (length pre) t) = Some m"
    unfolding match_acronym_iff by blast
  then have "m \<in> set (findall_acronym t)" by (rule findall_acronym_complete)
  with l show "m \<in> set (acronym_pass t)" by (simp add: acronym_pass_def)
qed

theorem acronym_pass_iff_witness:
  "lit ''GPT-4'' \<in> set (acronym_pass (lit ''We use (GPT-4) here'')) \<and>
   lit ''AI'' \<notin> set (acronym_pass (lit ''We use (AI) here''))"
proof -
  have "lit ''We use (GPT-4) here'' = lit ''We use '' @ [40] @ lit ''GPT'' @ lit ''-4'' @ [41] @ lit '' here''"
    "lit ''GPT-4'' = lit ''GPT'' @ lit ''-4''"
    "2 \<le> length (lit ''GPT'')" "list_all is_upper (lit ''GPT'')"
    "list_all is_acronym_tail (lit ''-4'')"
    "2 < length (lit ''GPT-4'')" "length (lit ''GPT-4'') < 15"
    by (simp_all add: lit_def is_upper_def is_acronym_tail_def)
  then have "\<exists>pre u w post.
        lit ''We use (GPT-4) here'' = pre @ [40] @ u @ w @ [41] @ post \<and> lit ''GPT-4'' = u @ w \<and>
        2 \<le> length u \<and> list_all is_upper u \<and> list_all is_acronym_tail w \<and>
        2 < length (lit ''GPT-4'') \<and> length (lit ''GPT-4'') < 15"
    by blast
  then have a: "lit ''GPT-4'' \<in> set (acronym_pass (lit ''We use (GPT-4) here''))"
    by (simp only: acronym_pass_iff)
  have "\<not> 2 < length (lit ''AI'')" by (simp add: lit_def)
  then have "lit ''AI'' \<notin> set (acronym_pass (lit ''We use (AI) here''))"
    unfolding acronym_pass_iff by blast
  with a show ?thesis by blast
qed

section \<open>The author threshold\<close>


lemma py_int_from_snoc:
  "py_int_from ext a (xs @ [c]) =
     (case py_int_from ext a xs of
        None \<Rightarrow> None
      | Some v \<Rightarrow> (case py_decimal ext c of None \<Rightarrow> None | Some d \<Rightarrow> Some (10 * v + d)))"
  by (induction xs arbitrary: a) (auto split: option.splits)

lemma py_int_from_str_nat: "py_int_from ext 0 (str_nat n) = Some n"
proof (induction n rule: str_nat.induct)
  case (1 n)
  show ?case
  proof (cases "n < 10")
    case True
    then show ?thesis
      by (subst str_nat.simps) (simp add: py_decimal_def)
  next
    case False
    have "n mod 10 < 10" by simp
    then have d: "py_decimal ext (48 + n mod 10) = Some (n mod 10)"
      unfolding py_decimal_def by (simp del: mod_less_divisor)
    from False "1.IH" have "py_int_from ext 0 (str_nat (n div 10)) = Some (n div 10)" by simp
    with False d show ?thesis
      by (subst str_nat.simps) (simp add: py_int_from_snoc)
  qed
qed

lemma str_nat_inj: "str_nat m = str_nat n \<Longrightarrow> m = n"
proof -
  assume "str_nat m = str_nat n"
  then have "py_int_from ascii_only 0 (str_nat m) = py_int_from ascii_only 0 (str_nat n)"
    by simp
  then show "m = n" by (simp add: py_int_from_str_nat)
qed

lemma sort_key_reverse_id_if_sorted:
  "sorted (rev (map f xs)) \<Longrightarrow> sort_key_reverse f xs = xs"
proof -
  assume "sorted (rev (map f xs))"
  then have "sorted (map f (rev xs))" by (simp add: rev_map)
  then have "sort_key f (rev xs) = rev xs" by (rule sort_key_id_if_sorted)
  then show ?thesis by (simp add: sort_key_reverse_def)
qed

lemma sorted_desc_filter_takeWhile:
  fixes f :: "'a \<Rightarrow> nat"
  shows "sorted_wrt (\<lambda>a b. f b \<le> f a) l \<Longrightarrow>
         filter (\<lambda>x. t \<le> f x) l = takeWhile (\<lambda>x. t \<le> f x) l"
proof (induction l)
  case Nil
  then show ?case by simp
next
  case (Cons x xs)
  show ?case
  proof (cases "t \<le> f x")
    case True
    with Cons show ?thesis by simp
  next
    case False
    with Cons.prems have "\<forall>y\<in>set xs. \<not> t \<le> f y" by fastforce
    then have "filter (\<lambda>x. t \<le> f x) xs = []" by (simp add: filter_empty_conv)
    with False show ?thesis by simp
  qed
qed

lemma length_filter_sort_key_reverse:
  "length (filter P (sort_key_reverse f c)) = length (filter P c)"
proof -
  have "mset (filter P (sort_key_reverse f c)) = mset (filter P c)"
    by (simp add: mset_sort_key_reverse)
  then show ?thesis by (rule mset_eq_length)
qed

lemma most_common_keeps:
  fixes c :: "('k \<times> nat) list"
  assumes "length (filter (\<lambda>x. t \<le> snd x) c) \<le> n" and "x \<in> set c" and "t \<le> snd x"
  shows "x \<in> set (most_common (Some n) c)"
proof -
  let ?l = "sort_key_reverse snd c"
  let ?P = "\<lambda>x::'k \<times> nat. t \<le> snd x"
  have "sorted_wrt (\<lambda>a b. b \<le> a) (map snd ?l)" by (rule sorted_desc_sort_key_reverse)
  then have "sorted_wrt (\<lambda>a b. snd b \<le> snd a) ?l" by (simp add: sorted_wrt_map)
  then have ft: "filter ?P ?l = takeWhile ?P ?l" by (rule sorted_desc_filter_takeWhile)
  have "length (takeWhile ?P ?l) \<le> n"
    using assms(1) by (simp add: ft[symmetric] length_filter_sort_key_reverse)
  then have "set (take (length (takeWhile ?P ?l)) ?l) \<subseteq> set (take n ?l)"
    by (rule set_take_subset_set_take)
  moreover have "take (length (takeWhile ?P ?l)) ?l = filter ?P ?l"
    by (simp add: ft takeWhile_eq_take[symmetric])
  moreover from assms(2,3) have "x \<in> set (filter ?P ?l)"
    by (simp add: set_sort_key_reverse)
  ultimately show ?thesis by (auto simp: most_common_def)
qed

lemma most_common_subset: "set (most_common n c) \<subseteq> set c"
proof (cases n)
  case None
  then show ?thesis by (simp add: most_common_def set_sort_key_reverse)
next
  case (Some k)
  have "set (take k (sort_key_reverse snd c)) \<subseteq> set (sort_key_reverse snd c)"
    by (rule set_take_subset)
  with Some show ?thesis by (simp add: most_common_def set_sort_key_reverse)
qed

lemma author_entities_iff:
  "e \<in> set (author_entities stats) \<longleftrightarrow>
     (\<exists>a c. (a, c) \<in> set (most_common (Some 200) stats) \<and> 2 \<le> c \<and> e = author_entity a c)"
  by (auto simp: author_entities_def)

lemma name_author_entity: "name (author_entity a c) = a"
  by (simp add: author_entity_def)

lemma one_paper_excluded:
  assumes "distinct (map fst stats)" and "(a, 1) \<in> set stats"
  shows "a \<notin> name ` set (author_entities stats)"
proof
  assume "a \<in> name ` set (author_entities stats)"
  then obtain e where "e \<in> set (author_entities stats)" and "a = name e" by blast
  then obtain b c where m: "(b, c) \<in> set (most_common (Some 200) stats)" and c: "2 \<le> c"
    and "a = name (author_entity b c)"
    unfolding author_entities_iff by blast
  then have "a = b" by (simp add: name_author_entity)
  with m most_common_subset have "(a, c) \<in> set stats" by blast
  with assms have "c = 1" by (meson eq_key_imp_eq_value)
  with c show False by simp
qed

lemma two_papers_included:
  assumes "(a, 2) \<in> set stats" and "length (filter (\<lambda>(k, c). 2 \<le> c) stats) \<le> 200"
  shows "author_entity a 2 \<in> set (author_entities stats)"
proof -
  have "(\<lambda>(k::pystr, c::nat). 2 \<le> c) = (\<lambda>x. 2 \<le> snd x)" by auto
  with assms(2) have "length (filter (\<lambda>x. 2 \<le> snd x) stats) \<le> 200" by simp
  then have "(a, 2) \<in> set (most_common (Some 200) stats)"
    using assms(1) by (rule most_common_keeps) simp
  then show ?thesis unfolding author_entities_iff by blast
qed

lemma fst_set_incr: "fst ` set (incr k c) = insert k (fst ` set c)"
proof (induction k c rule: incr.induct)
  case (1 k)
  show ?case by simp
next
  case (2 k k' n c)
  show ?case
  proof (cases "k = k'")
    case True
    then show ?thesis by auto
  next
    case False
    with "2.IH" show ?thesis by auto
  qed
qed

lemma distinct_incr: "distinct (map fst c) \<Longrightarrow> distinct (map fst (incr k c))"
proof (induction k c rule: incr.induct)
  case (1 k)
  show ?case by simp
next
  case (2 k k' n c)
  show ?case
  proof (cases "k = k'")
    case True
    with "2.prems" show ?thesis by simp
  next
    case False
    with "2.prems" "2.IH" show ?thesis by (simp add: fst_set_incr)
  qed
qed

lemma distinct_foldl_incr:
  "distinct (map fst c) \<Longrightarrow>
   distinct (map fst (foldl (\<lambda>c a. if a \<noteq> [] then incr a c else c) c xs))"
  by (induction xs arbitrary: c) (simp_all add: distinct_incr)

lemma author_stats_step:
  "author_stats (paper_step ext lower s p) =
     foldl (\<lambda>c a. if a \<noteq> [] then incr a c else c) (author_stats s) (authors p)"
  by (simp add: paper_step_def Let_def)

lemma distinct_author_stats_foldl:
  "distinct (map fst (author_stats s)) \<Longrightarrow>
   distinct (map fst (author_stats (foldl (paper_step ext lower) s papers)))"
  by (induction papers arbitrary: s) (simp_all add: author_stats_step distinct_foldl_incr)

lemma distinct_author_stats:
  "distinct (map fst (author_stats (paper_loop ext lower papers)))"
  unfolding paper_loop_def by (rule distinct_author_stats_foldl) (simp add: empty_tally_def)

text \<open>
  Claim C7, amended. An author whose count is exactly 1 yields no author entity. An author
  whose count is exactly 2 yields an author entity when at most 200 authors have a count of
  2 or more, so that the cut to the 200 most common authors does not reach it. The counter
  that the loop builds has one item for each author, as the first part assumes.
\<close>

theorem author_threshold:
  "(distinct (map fst stats) \<and> (a, 1) \<in> set stats \<longrightarrow>
      a \<notin> name ` set (author_entities stats)) \<and>
   ((a, 2) \<in> set stats \<and> length (filter (\<lambda>(k, c). 2 \<le> c) stats) \<le> 200 \<longrightarrow>
      author_entity a 2 \<in> set (author_entities stats) \<and>
      a \<in> name ` set (author_entities stats)) \<and>
   distinct (map fst (author_stats (paper_loop ext lower papers)))"
proof (intro conjI impI)
  assume "distinct (map fst stats) \<and> (a, 1) \<in> set stats"
  then show "a \<notin> name ` set (author_entities stats)"
    using one_paper_excluded by blast
next
  assume h: "(a, 2) \<in> set stats \<and> length (filter (\<lambda>(k, c). 2 \<le> c) stats) \<le> 200"
  then show i: "author_entity a 2 \<in> set (author_entities stats)"
    using two_papers_included by blast
  have "name (author_entity a 2) = a" by (rule name_author_entity)
  with i show "a \<in> name ` set (author_entities stats)" by force
next
  show "distinct (map fst (author_stats (paper_loop ext lower papers)))"
    by (rule distinct_author_stats)
qed

theorem author_threshold_witness:
  "distinct (map fst small_stats) \<and> (lit ''Ada'', 1) \<in> set small_stats \<and>
   (lit ''Bob'', 2) \<in> set small_stats \<and>
   length (filter (\<lambda>(k, c). 2 \<le> c) small_stats) \<le> 200 \<and>
   lit ''Ada'' \<notin> name ` set (author_entities small_stats) \<and>
   lit ''Bob'' \<in> name ` set (author_entities small_stats)"
proof -
  have h: "distinct (map fst small_stats)" "(lit ''Ada'', 1) \<in> set small_stats"
    "(lit ''Bob'', 2) \<in> set small_stats"
    "length (filter (\<lambda>(k, c). 2 \<le> c) small_stats) \<le> 200"
    by (simp_all add: small_stats_def lit_def)
  from h(1,2) author_threshold[of small_stats "lit ''Ada''"]
  have "lit ''Ada'' \<notin> name ` set (author_entities small_stats)" by blast
  moreover from h(3,4) author_threshold[of small_stats "lit ''Bob''"]
  have "lit ''Bob'' \<in> name ` set (author_entities small_stats)" by blast
  ultimately show ?thesis using h by blast
qed

lemma crowd_name_inj: "inj (\<lambda>i. lit ''a'' @ str_nat i)"
  by (rule injI) (simp add: str_nat_inj)

lemma most_common_crowd:
  "most_common (Some 200) crowd_stats = map (\<lambda>i. (lit ''a'' @ str_nat i, 2)) [0..<200]"
proof -
  have "map snd crowd_stats = replicate 201 2"
    by (simp add: crowd_stats_def map_replicate_const o_def)
  then have "sorted (rev (map snd crowd_stats))" by simp
  then have "sort_key_reverse snd crowd_stats = crowd_stats"
    by (rule sort_key_reverse_id_if_sorted)
  then show ?thesis
    by (simp add: most_common_def crowd_stats_def take_map)
qed

text \<open>
  Claim C7, as stated, fails: among 201 authors with two papers each, the author first
  seen last, \<open>a200\<close>, has a count of exactly 2 and yields no entity, because only the 200 most
  common authors are considered.
\<close>

theorem author_with_two_papers_cut_off:
  "(lit ''a200'', 2) \<in> set crowd_stats \<and> distinct (map fst crowd_stats) \<and>
   lit ''a200'' \<notin> name ` set (author_entities crowd_stats)"
proof -
  have n: "lit ''a200'' = lit ''a'' @ str_nat 200" by code_simp
  have "(lit ''a'' @ str_nat 200, 2) \<in> set crowd_stats"
    by (auto simp: crowd_stats_def)
  with n have a: "(lit ''a200'', 2) \<in> set crowd_stats" by simp
  have "map fst crowd_stats = map (\<lambda>i. lit ''a'' @ str_nat i) [0..<201]"
    by (simp add: crowd_stats_def o_def)
  moreover have "distinct (map (\<lambda>i. lit ''a'' @ str_nat i) [0..<201])"
    using crowd_name_inj by (simp add: distinct_map inj_on_def inj_def)
  ultimately have d: "distinct (map fst crowd_stats)" by simp
  have "lit ''a200'' \<notin> name ` set (author_entities crowd_stats)"
  proof
    assume "lit ''a200'' \<in> name ` set (author_entities crowd_stats)"
    then obtain e where "e \<in> set (author_entities crowd_stats)" and "lit ''a200'' = name e"
      by blast
    then obtain b c where "(b, c) \<in> set (most_common (Some 200) crowd_stats)"
      and "lit ''a200'' = name (author_entity b c)"
      unfolding author_entities_iff by blast
    then obtain i where "i < 200" and "lit ''a200'' = lit ''a'' @ str_nat i"
      by (auto simp: most_common_crowd name_author_entity)
    with n have "str_nat 200 = str_nat i" by simp
    then have "i = 200" using str_nat_inj by blast
    with \<open>i < 200\<close> show False by simp
  qed
  with a d show ?thesis by blast
qed


end
